theory Spec2Isabelle
  imports Main "HOL-Library.Multiset"
begin

section \<open>Icon-set documents and alias resolution (icon-utils.ts)\<close>

text \<open>
  An alias entry of an icon-set document is an object with a \<open>parent\<close> field.  The
  document comes from parsed JSON, so the field may be missing: the entry is modelled by
  its \<open>parent\<close> field as an option.  The \<open>aliases\<close> table itself is optional, and
  it is modelled by its property lookup: a key under which the lookup finds a value
  without a \<open>parent\<close> field (as under the property names that every object inherits)
  is an entry with no parent.
\<close>

record IconData =
  body :: string
  width :: "int option"
  height :: "int option"
  icon_left :: "int option"
  icon_top :: "int option"

record IconSet =
  icons :: "(string \<rightharpoonup> IconData) option"
  aliases :: "(string \<rightharpoonup> string option) option"
  set_width :: "int option"
  set_height :: "int option"

text \<open>\<open>iconSet.aliases?.[current]\<close>: the entry, when the table and the key exist.\<close>

definition alias_entry :: "IconSet \<Rightarrow> string \<Rightarrow> string option option" where
  "alias_entry iconSet current =
     (case aliases iconSet of None \<Rightarrow> None | Some tbl \<Rightarrow> tbl current)"

text \<open>\<open>iconSet.aliases[current]?.parent ?? current\<close>: one hop of the chain.\<close>

definition alias_parent :: "IconSet \<Rightarrow> string \<Rightarrow> string" where
  "alias_parent iconSet current =
     (case alias_entry iconSet current of
        Some (Some p) \<Rightarrow> p
      | _ \<Rightarrow> current)"

text \<open>
  The \<open>while\<close> loop of \<open>resolveIconAlias\<close>, on the pair of its two variables
  \<open>current\<close> and \<open>depth\<close>; it returns both, so that the number of hops can be read.
\<close>

function resolve_loop :: "IconSet \<Rightarrow> int \<Rightarrow> string \<Rightarrow> int \<Rightarrow> string \<times> int" where
  "resolve_loop iconSet maxDepth current depth =
     (if alias_entry iconSet current \<noteq> None \<and> depth < maxDepth
      then resolve_loop iconSet maxDepth (alias_parent iconSet current) (depth + 1)
      else (current, depth))"
  by pat_completeness auto
termination
  by (relation "measure (\<lambda>(iconSet, maxDepth, current, depth). nat (maxDepth - depth))") auto

declare resolve_loop.simps [simp del]

definition resolveIconAlias :: "IconSet \<Rightarrow> string \<Rightarrow> int \<Rightarrow> string" where
  "resolveIconAlias iconSet name maxDepth = fst (resolve_loop iconSet maxDepth name 0)"

text \<open>The number of alias hops a call makes: the final value of \<open>depth\<close>.\<close>

definition alias_hops :: "IconSet \<Rightarrow> string \<Rightarrow> int \<Rightarrow> int" where
  "alias_hops iconSet name maxDepth = snd (resolve_loop iconSet maxDepth name 0)"

text \<open>The default of the third parameter.\<close>

definition default_maxDepth :: int where
  "default_maxDepth = 10"

section \<open>Numbers\<close>

text \<open>
  A number of the program is a double.  The numbers of this development are the finite
  integer-valued ones, and an \<open>int\<close> stands for the double of that value.
  \<open>ulp m\<close> is the distance between neighbouring doubles at magnitude \<open>m\<close> (1 below
  \<open>2^53\<close>, doubling with every further binary digit), \<open>round_double\<close> is the rounding
  of an exact integer result to the nearest double, a tie going to the even significand,
  and \<open>add_number\<close> is the operator \<open>+\<close> on two such numbers (below the overflow
  threshold of the format).
\<close>

function ulp :: "int \<Rightarrow> int" where
  "ulp m = (if m < 2 ^ 53 then 1 else 2 * ulp (m div 2))"
  by pat_completeness auto
termination
  by (relation "measure nat") auto

declare ulp.simps [simp del]

definition round_double :: "int \<Rightarrow> int" where
  "round_double x =
     (let u = ulp \<bar>x\<bar>; q = x div u; r = x mod u
      in if 2 * r < u then q * u
         else if u < 2 * r then (q + 1) * u
         else if even q then q * u else (q + 1) * u)"

definition add_number :: "int \<Rightarrow> int \<Rightarrow> int" where
  "add_number a b = round_double (a + b)"

section \<open>The preference store (src/unnamed/part_000)\<close>

record CollectionUsage =
  usage_count :: int
  lastUsed :: string

record IconHistoryEntry =
  iconId :: string
  timestamp :: string

datatype IconFramework = React | Vue | Svelte | Solid | Svg

record Preferences =
  collections :: "string \<rightharpoonup> CollectionUsage"
  history :: "IconHistoryEntry list"

definition MAX_HISTORY_SIZE :: nat where
  "MAX_HISTORY_SIZE = 50"

text \<open>
  What the preferences path holds: no file, a file that cannot be read or parsed, or a
  JSON document whose \<open>collections\<close> and \<open>history\<close> fields may each be missing.
\<close>

datatype prefs_file =
  Absent
| Garbled
| Document "(string \<rightharpoonup> CollectionUsage) option" "(IconHistoryEntry list) option"

text \<open>
  \<open>DEFAULT_PREFERENCES\<close> is a module-level object.  \<open>{ ...DEFAULT_PREFERENCES }\<close> is a
  shallow copy: the result shares the \<open>collections\<close> object of the default, and
  \<open>trackUsage\<close> assigns into that object.  The store therefore carries the current
  content of the default's \<open>collections\<close> object next to the file.  The default's
  \<open>history\<close> array is never written to (\<open>filter\<close> and \<open>slice\<close> build new arrays).
\<close>

record store =
  prefs_file :: prefs_file
  default_collections :: "string \<rightharpoonup> CollectionUsage"

text \<open>
  \<open>loadPreferences\<close> never raises.  The flag tells whether the \<open>collections\<close> object of
  the result is the shared object of \<open>DEFAULT_PREFERENCES\<close>.
\<close>

definition loadPreferences :: "store \<Rightarrow> Preferences \<times> bool" where
  "loadPreferences st =
     (case prefs_file st of
        Absent \<Rightarrow> (\<lparr>collections = default_collections st, history = []\<rparr>, True)
      | Garbled \<Rightarrow> (\<lparr>collections = default_collections st, history = []\<rparr>, True)
      | Document cs hs \<Rightarrow>
          (\<lparr>collections = (case cs of None \<Rightarrow> Map.empty | Some m \<Rightarrow> m),
            history = (case hs of None \<Rightarrow> [] | Some h \<Rightarrow> h)\<rparr>, False))"

datatype io_error = IOError

text \<open>
  What one call of \<open>savePreferences\<close> meets: the temporary file is written and renamed
  over the target; or the call throws and the target is untouched (\<open>mkdirSync\<close> or the
  temporary write failed, or the fallback write failed before writing); or it throws
  after the fallback \<open>writeFileSync(path, ...)\<close> wrote the document; or it throws after
  the fallback write left a partial file.
\<close>

datatype save_outcome =
  Renamed
| Failed_untouched
| Failed_fallback_written
| Failed_fallback_torn

definition serialize :: "Preferences \<Rightarrow> prefs_file" where
  "serialize prefs = Document (Some (collections prefs)) (Some (history prefs))"

definition savePreferences :: "prefs_file \<Rightarrow> Preferences \<Rightarrow> save_outcome \<Rightarrow> (io_error + unit) \<times> prefs_file" where
  "savePreferences file prefs outcome =
     (case outcome of
        Renamed \<Rightarrow> (Inr (), serialize prefs)
      | Failed_untouched \<Rightarrow> (Inl IOError, file)
      | Failed_fallback_written \<Rightarrow> (Inl IOError, serialize prefs)
      | Failed_fallback_torn \<Rightarrow> (Inl IOError, Garbled))"

text \<open>\<open>if (iconId)\<close>: the argument is given and is not the empty string.\<close>

definition truthy :: "string option \<Rightarrow> bool" where
  "truthy x = (case x of None \<Rightarrow> False | Some v \<Rightarrow> v \<noteq> [])"

text \<open>
  The \<open>collections\<close> object is a plain object, and the map holds its own properties
  (those that \<open>JSON.stringify\<close> writes and \<open>JSON.parse\<close> makes).

  \<open>existing?.count || 0\<close>, where \<open>existing\<close> is \<open>collections[key]\<close>: the count of the own
  property under the key, and 0 when there is none.  Without an own property the lookup
  finds nothing or an inherited value: a method of \<open>Object.prototype\<close>, which has no
  count, or under \<open>__proto__\<close> the prototype of the object.  The count of a prototype is
  read only for an assignment under \<open>__proto__\<close> that makes no own property (below), so
  it reaches no saved state.
\<close>

definition existing_count :: "(string \<rightharpoonup> CollectionUsage) \<Rightarrow> string \<Rightarrow> int" where
  "existing_count cs key = (case cs key of None \<Rightarrow> 0 | Some e \<Rightarrow> usage_count e)"

text \<open>
  \<open>collections[key] = value\<close> with an object as the value.  An own property is
  overwritten and a new key becomes an own property, with one exception: under the key
  \<open>__proto__\<close>, when the object has no own property of that name (\<open>JSON.parse\<close> can
  make one), the assignment runs the setter inherited from \<open>Object.prototype\<close>, which
  replaces the prototype of the object and makes no own property.
\<close>

definition assign_property :: "(string \<rightharpoonup> 'v) \<Rightarrow> string \<Rightarrow> 'v \<Rightarrow> (string \<rightharpoonup> 'v)" where
  "assign_property obj key v =
     (if key = ''__proto__'' \<and> obj key = None then obj else obj(key \<mapsto> v))"

text \<open>Lines 92 to 108 of \<open>trackUsage\<close>: the update of the loaded preferences.\<close>

definition apply_usage :: "Preferences \<Rightarrow> string \<Rightarrow> string option \<Rightarrow> string \<Rightarrow> Preferences" where
  "apply_usage prefs collectionPrefix icon now =
     (let cs = assign_property (collections prefs) collectionPrefix
                 \<lparr>usage_count = add_number (existing_count (collections prefs) collectionPrefix) 1,
                  lastUsed = now\<rparr>
      in if truthy icon
         then \<lparr>collections = cs,
               history = take MAX_HISTORY_SIZE
                 (\<lparr>iconId = the icon, timestamp = now\<rparr> #
                    filter (\<lambda>h. iconId h \<noteq> the icon) (history prefs))\<rparr>
         else \<lparr>collections = cs, history = history prefs\<rparr>)"

text \<open>What one attempt meets: the clock reading and the outcome of the save.\<close>

record attempt_env =
  now :: string
  save :: save_outcome

text \<open>
  The body of the \<open>try\<close> block: load, update, save.  The assignment to
  \<open>prefs.collections[collectionPrefix]\<close> happens before the save, so when the loaded
  \<open>collections\<close> object is the shared default it is changed whatever the save does.
\<close>

definition trackUsage_attempt ::
  "store \<Rightarrow> string \<Rightarrow> string option \<Rightarrow> attempt_env \<Rightarrow> (io_error + unit) \<times> store" where
  "trackUsage_attempt st collectionPrefix icon env =
     (let (prefs, shared) = loadPreferences st;
          prefs' = apply_usage prefs collectionPrefix icon (now env);
          dc = (if shared then collections prefs' else default_collections st);
          (r, file') = savePreferences (prefs_file st) prefs' (save env)
      in (r, \<lparr>prefs_file = file', default_collections = dc\<rparr>))"

definition maxRetries :: nat where
  "maxRetries = 3"

record track_result =
  outcome :: "io_error + unit"
  final :: store
  attempts :: nat
  logged :: "string list"

text \<open>
  The \<open>for\<close> loop with its \<open>try\<close>/\<open>catch\<close>: a successful attempt returns, a failed one
  is caught, and the last failure writes one line to the error log.  Nothing is rethrown.
\<close>

function track_loop ::
  "(nat \<Rightarrow> attempt_env) \<Rightarrow> string \<Rightarrow> string option \<Rightarrow> nat \<Rightarrow> store \<Rightarrow> string list \<Rightarrow> track_result" where
  "track_loop env collectionPrefix icon attempt st log =
     (if attempt < maxRetries
      then (case trackUsage_attempt st collectionPrefix icon (env attempt) of
              (Inr u, st') \<Rightarrow>
                \<lparr>outcome = Inr (), final = st', attempts = attempt + 1, logged = log\<rparr>
            | (Inl e, st') \<Rightarrow>
                track_loop env collectionPrefix icon (attempt + 1) st'
                  (if attempt = maxRetries - 1
                   then log @ [''Failed to track icon usage after retries'']
                   else log))
      else \<lparr>outcome = Inr (), final = st, attempts = attempt, logged = log\<rparr>)"
  by pat_completeness auto
termination
  by (relation "measure (\<lambda>(env, collectionPrefix, icon, attempt, st, log). maxRetries - attempt)") auto

declare track_loop.simps [simp del]

definition trackUsage :: "store \<Rightarrow> string \<Rightarrow> string option \<Rightarrow> (nat \<Rightarrow> attempt_env) \<Rightarrow> track_result" where
  "trackUsage st collectionPrefix icon env = track_loop env collectionPrefix icon 0 st []"

text \<open>The history a reader of the preferences file gets.\<close>

definition persisted_history :: "store \<Rightarrow> IconHistoryEntry list" where
  "persisted_history st = history (fst (loadPreferences st))"

definition persisted_collections :: "store \<Rightarrow> (string \<rightharpoonup> CollectionUsage)" where
  "persisted_collections st = collections (fst (loadPreferences st))"

text \<open>The invariant of the data model: at most 50 entries, no icon twice.\<close>

definition history_ok :: "IconHistoryEntry list \<Rightarrow> bool" where
  "history_ok h = (length h \<le> 50 \<and> distinct (map iconId h))"

text \<open>A call of \<open>trackUsage\<close>: its two arguments and what its attempts meet.\<close>

record track_call =
  call_prefix :: string
  call_icon :: "string option"
  call_env :: "nat \<Rightarrow> attempt_env"

definition run_call :: "track_call \<Rightarrow> store \<Rightarrow> store" where
  "run_call c st = final (trackUsage st (call_prefix c) (call_icon c) (call_env c))"

definition run_calls :: "track_call list \<Rightarrow> store \<Rightarrow> store" where
  "run_calls cs st = fold run_call cs st"

definition fresh_store :: store where
  "fresh_store = \<lparr>prefs_file = Absent, default_collections = Map.empty\<rparr>"

text \<open>
  The store that a later attempt of a call starts from: \<open>after_failures env p icon a k st\<close>
  is the store left by the attempts \<open>a\<close>, ..., \<open>a + k - 1\<close> run from \<open>st\<close>.
\<close>

fun after_failures ::
  "(nat \<Rightarrow> attempt_env) \<Rightarrow> string \<Rightarrow> string option \<Rightarrow> nat \<Rightarrow> nat \<Rightarrow> store \<Rightarrow> store" where
  "after_failures env collectionPrefix icon a 0 st = st"
| "after_failures env collectionPrefix icon a (Suc k) st =
     after_failures env collectionPrefix icon (Suc a) k
       (snd (trackUsage_attempt st collectionPrefix icon (env a)))"

section \<open>Ranking (icon-utils.ts)\<close>

text \<open>\<open>iconId.split(":")[0]\<close>: the text before the first colon (all of it when there is none).\<close>

definition getIconPrefix :: "string \<Rightarrow> string" where
  "getIconPrefix icon = takeWhile (\<lambda>c. c \<noteq> CHR '':'') icon"

datatype style = Style_solid | Style_outline | Style_any

definition stylePreferred :: "style \<Rightarrow> string list" where
  "stylePreferred s =
     (case s of
        Style_solid \<Rightarrow> [''mdi'', ''fa-solid'']
      | Style_outline \<Rightarrow> [''lucide'', ''tabler'', ''ph'']
      | Style_any \<Rightarrow> [''lucide'', ''mdi'', ''heroicons''])"

text \<open>\<open>[...new Set(xs)]\<close>: a set keeps its elements in insertion order, first occurrence.\<close>

definition set_add :: "'a list \<Rightarrow> 'a \<Rightarrow> 'a list" where
  "set_add acc x = (if x \<in> set acc then acc else acc @ [x])"

definition unique :: "'a list \<Rightarrow> 'a list" where
  "unique xs = foldl set_add [] xs"

text \<open>\<open>Array.prototype.indexOf\<close>: the first index of the element, or \<open>-1\<close>.\<close>

fun indexOf_from :: "'a list \<Rightarrow> 'a \<Rightarrow> int \<Rightarrow> int" where
  "indexOf_from [] x i = - 1"
| "indexOf_from (y # ys) x i = (if y = x then i else indexOf_from ys x (i + 1))"

definition indexOf :: "'a list \<Rightarrow> 'a \<Rightarrow> int" where
  "indexOf xs x = indexOf_from xs x 0"

text \<open>The comparator both sort functions pass to \<open>sort\<close>.\<close>

definition compare_icons :: "string list \<Rightarrow> string \<Rightarrow> string \<Rightarrow> int" where
  "compare_icons preferred a b =
     (let prefixA = getIconPrefix a;
          prefixB = getIconPrefix b;
          pA = indexOf preferred prefixA;
          pB = indexOf preferred prefixB
      in if pA \<ge> 0 \<and> pB \<ge> 0 then pA - pB
         else if pA \<ge> 0 \<and> pB < 0 then - 1
         else if pB \<ge> 0 \<and> pA < 0 then 1
         else 0)"

text \<open>
  \<open>Array.prototype.sort\<close> with a comparator is stable: an element moves in front of
  another only when the comparator puts it strictly before.  It is modelled by the stable
  insertion sort.
\<close>

fun insert_by :: "('a \<Rightarrow> 'a \<Rightarrow> int) \<Rightarrow> 'a \<Rightarrow> 'a list \<Rightarrow> 'a list" where
  "insert_by cmp x [] = [x]"
| "insert_by cmp x (y # ys) = (if cmp x y \<le> 0 then x # y # ys else y # insert_by cmp x ys)"

fun sort_by :: "('a \<Rightarrow> 'a \<Rightarrow> int) \<Rightarrow> 'a list \<Rightarrow> 'a list" where
  "sort_by cmp [] = []"
| "sort_by cmp (x # xs) = insert_by cmp x (sort_by cmp xs)"

text \<open>
  Arrays are objects: a function that sorts in place changes the caller's array.  The
  arrays live in a store, addressed by their index in it; \<open>[...icons]\<close> allocates a copy
  and \<open>sort\<close> overwrites the array it is called on and returns its address.
\<close>

type_synonym arrays = "string list list"

definition spread_copy :: "arrays \<Rightarrow> nat \<Rightarrow> arrays \<times> nat" where
  "spread_copy h a = (h @ [h ! a], length h)"

definition array_sort :: "(string \<Rightarrow> string \<Rightarrow> int) \<Rightarrow> arrays \<Rightarrow> nat \<Rightarrow> arrays \<times> nat" where
  "array_sort cmp h a = (h[a := sort_by cmp (h ! a)], a)"

definition sortByPreferredCollections ::
  "arrays \<Rightarrow> nat \<Rightarrow> style \<Rightarrow> string list \<Rightarrow> arrays \<times> nat" where
  "sortByPreferredCollections h icons_arr s learnedPreferences =
     (let preferred = unique (learnedPreferences @ stylePreferred s);
          (h1, copy) = spread_copy h icons_arr
      in array_sort (compare_icons preferred) h1 copy)"

definition sortByLearnedPreferences ::
  "arrays \<Rightarrow> nat \<Rightarrow> string list \<Rightarrow> arrays \<times> nat" where
  "sortByLearnedPreferences h icons_arr learnedPreferences =
     (if length learnedPreferences = 0 then (h, icons_arr)
      else (let (h1, copy) = spread_copy h icons_arr
            in array_sort (compare_icons learnedPreferences) h1 copy))"

section \<open>Strings and regular expressions\<close>

text \<open>
  A string is a list of 8-bit characters (code units below 256).  The character classes
  are those of JavaScript regular expressions without flags: \<open>\s\<close> is the white space
  and line terminators (tab, line feed, vertical tab, form feed, carriage return, space
  and no-break space in this range), \<open>\d\<close> is \<open>[0-9]\<close> and \<open>\w\<close> is \<open>[A-Za-z0-9_]\<close>.
\<close>

definition is_space :: "char \<Rightarrow> bool" where
  "is_space c = (c \<in> set [CHR 0x09, CHR 0x0A, CHR 0x0B, CHR 0x0C, CHR 0x0D, CHR 0x20, CHR 0xA0])"

definition is_digit :: "char \<Rightarrow> bool" where
  "is_digit c = (48 \<le> (of_char c :: nat) \<and> (of_char c :: nat) \<le> 57)"

definition is_word :: "char \<Rightarrow> bool" where
  "is_word c =
     ((48 \<le> (of_char c :: nat) \<and> (of_char c :: nat) \<le> 57)
      \<or> (65 \<le> (of_char c :: nat) \<and> (of_char c :: nat) \<le> 90)
      \<or> (97 \<le> (of_char c :: nat) \<and> (of_char c :: nat) \<le> 122)
      \<or> c = CHR ''_'')"

text \<open>
  \<open>toLowerCase\<close> on a character of the range: the letters \<open>A\<close> to \<open>Z\<close> and the
  Latin-1 capitals (\<open>0xC0\<close> to \<open>0xDE\<close> without the multiplication sign \<open>0xD7\<close>) move up
  by 32.  \<open>toUpperCase\<close> on a one-character string: \<open>a\<close> to \<open>z\<close> and the Latin-1 small
  letters (\<open>0xE0\<close> to \<open>0xFE\<close> without the division sign \<open>0xF7\<close>) move down by 32,
  and the sharp s (\<open>0xDF\<close>) becomes \<open>SS\<close>.  The capitals of the micro sign (\<open>0xB5\<close>)
  and of the y with diaeresis (\<open>0xFF\<close>) are the characters \<open>U+039C\<close> and \<open>U+0178\<close>,
  which a string of this development cannot hold: \<open>to_upper\<close> leaves these two
  characters as they are, and nothing below is stated about names that begin with them.
\<close>

definition to_upper :: "char \<Rightarrow> string" where
  "to_upper c =
     (if (97 \<le> (of_char c :: nat) \<and> (of_char c :: nat) \<le> 122)
         \<or> (224 \<le> (of_char c :: nat) \<and> (of_char c :: nat) \<le> 254 \<and> (of_char c :: nat) \<noteq> 247)
      then [char_of ((of_char c :: nat) - 32)]
      else if (of_char c :: nat) = 223 then ''SS''
      else [c])"

definition to_lower :: "char \<Rightarrow> char" where
  "to_lower c =
     (if (65 \<le> (of_char c :: nat) \<and> (of_char c :: nat) \<le> 90)
         \<or> (192 \<le> (of_char c :: nat) \<and> (of_char c :: nat) \<le> 222 \<and> (of_char c :: nat) \<noteq> 215)
      then char_of ((of_char c :: nat) + 32) else c)"

definition trimEnd :: "string \<Rightarrow> string" where
  "trimEnd s = rev (dropWhile is_space (rev s))"

definition trim :: "string \<Rightarrow> string" where
  "trim s = dropWhile is_space (trimEnd s)"

text \<open>\<open>split\<close> on a single-character separator class: the pieces between separators.\<close>

fun split_by :: "(char \<Rightarrow> bool) \<Rightarrow> string \<Rightarrow> string list" where
  "split_by p [] = [[]]"
| "split_by p (x # xs) =
     (if p x then [] # split_by p xs
      else (case split_by p xs of [] \<Rightarrow> [[x]] | y # ys \<Rightarrow> (x # y) # ys))"

text \<open>
  Regular expressions as the source writes them: literal text, a character class,
  sequence, alternative, the greedy and the lazy star, a numbered capture group and the
  negative lookahead.
\<close>

datatype rx =
    Lit string
  | Cls "char \<Rightarrow> bool"
  | Seq rx rx
  | Alt rx rx
  | Star rx
  | Lazy rx
  | Grp nat rx
  | NotAhead rx

definition Plus :: "rx \<Rightarrow> rx" where
  "Plus r = Seq r (Star r)"

definition Opt :: "rx \<Rightarrow> rx" where
  "Opt r = Alt r (Lit [])"

type_synonym caps = "nat \<rightharpoonup> string"

text \<open>
  The backtracking matcher.  \<open>rx_match r (s, c)\<close> lists, in the order in which a
  backtracking engine tries them, the ways in which \<open>r\<close> matches a prefix of \<open>s\<close>: each
  with the text left over and the captures made.  The engine's match is the head of the
  list.  An iteration of a star that consumes nothing is not taken.
\<close>

function rx_match :: "rx \<Rightarrow> string \<times> caps \<Rightarrow> (string \<times> caps) list" where
  "rx_match (Lit w) (s, c) = (if take (length w) s = w then [(drop (length w) s, c)] else [])"
| "rx_match (Cls p) (s, c) = (case s of [] \<Rightarrow> [] | x # xs \<Rightarrow> if p x then [(xs, c)] else [])"
| "rx_match (Seq a b) (s, c) = concat (map (rx_match b) (rx_match a (s, c)))"
| "rx_match (Alt a b) (s, c) = rx_match a (s, c) @ rx_match b (s, c)"
| "rx_match (Star a) (s, c) =
     concat (map (\<lambda>(s', c'). if length s' < length s then rx_match (Star a) (s', c') else [])
               (rx_match a (s, c))) @ [(s, c)]"
| "rx_match (Lazy a) (s, c) =
     (s, c) # concat (map (\<lambda>(s', c'). if length s' < length s then rx_match (Lazy a) (s', c') else [])
               (rx_match a (s, c)))"
| "rx_match (Grp n a) (s, c) =
     map (\<lambda>(s', c'). (s', c'(n \<mapsto> take (length s - length s') s))) (rx_match a (s, c))"
| "rx_match (NotAhead a) (s, c) = (if rx_match a (s, c) = [] then [(s, c)] else [])"
  by pat_completeness auto
termination
  by (relation "measures [\<lambda>(r, s, c). size r, \<lambda>(r, s, c). length s]") auto

text \<open>The equations of the two stars are unfolded by hand in the proofs.\<close>

declare rx_match.simps(5,6) [simp del]

text \<open>
  The search of \<open>exec\<close> and \<open>match\<close>: the first position at which the expression
  matches.  The result is the text skipped, the text left after the match and the
  captures.
\<close>

fun rx_exec :: "rx \<Rightarrow> string \<Rightarrow> (string \<times> string \<times> caps) option" where
  "rx_exec r [] =
     (case rx_match r ([], Map.empty) of [] \<Rightarrow> None | (s', c) # ms \<Rightarrow> Some ([], s', c))"
| "rx_exec r (x # xs) =
     (case rx_match r (x # xs, Map.empty) of
        [] \<Rightarrow> (case rx_exec r xs of None \<Rightarrow> None | Some (skipped, s', c) \<Rightarrow> Some (x # skipped, s', c))
      | (s', c) # ms \<Rightarrow> Some ([], s', c))"

definition cap_text :: "caps \<Rightarrow> nat \<Rightarrow> string" where
  "cap_text c n = (case c n of None \<Rightarrow> [] | Some v \<Rightarrow> v)"

definition digit_val :: "char \<Rightarrow> nat" where
  "digit_val d = of_char d - 48"

text \<open>
  The replacement patterns of \<open>String.prototype.replace\<close>: \<open>$$\<close>, \<open>$&\<close>, the text before
  and after the match, and \<open>$n\<close>, \<open>$nn\<close> for a capture that exists (\<open>m\<close> is the number of
  capture groups of the expression); any other \<open>$\<close> stands for itself.
\<close>

fun substitute :: "nat \<Rightarrow> string \<Rightarrow> caps \<Rightarrow> string \<Rightarrow> string \<Rightarrow> string \<Rightarrow> string" where
  "substitute m matched c pre post (x # y # t) =
     (if x = CHR ''$'' then
        (if y = CHR ''$'' then CHR ''$'' # substitute m matched c pre post t
         else if y = CHR ''&'' then matched @ substitute m matched c pre post t
         else if y = CHR 0x60 then pre @ substitute m matched c pre post t
         else if y = CHR 0x27 then post @ substitute m matched c pre post t
         else if is_digit y then
           (case t of
              [] \<Rightarrow>
                if 1 \<le> digit_val y \<and> digit_val y \<le> m then cap_text c (digit_val y) else [x, y]
            | z # t' \<Rightarrow>
                if is_digit z \<and> 1 \<le> 10 * digit_val y + digit_val z
                   \<and> 10 * digit_val y + digit_val z \<le> m
                then cap_text c (10 * digit_val y + digit_val z)
                       @ substitute m matched c pre post t'
                else if 1 \<le> digit_val y \<and> digit_val y \<le> m
                then cap_text c (digit_val y) @ substitute m matched c pre post t
                else x # substitute m matched c pre post (y # t))
         else x # substitute m matched c pre post (y # t))
      else x # substitute m matched c pre post (y # t))"
| "substitute m matched c pre post t = t"

text \<open>
  \<open>s.replace(/r/g, template)\<close>.  \<open>pre\<close> is the text of the subject in front of \<open>s\<close>.
  After a match that consumes nothing the next character is copied.
\<close>

function rx_replace_all :: "rx \<Rightarrow> nat \<Rightarrow> string \<Rightarrow> string \<Rightarrow> string \<Rightarrow> string" where
  "rx_replace_all r m template pre s =
     (case rx_match r (s, Map.empty) of
        [] \<Rightarrow> (case s of [] \<Rightarrow> [] | x # xs \<Rightarrow> x # rx_replace_all r m template (pre @ [x]) xs)
      | (s', c) # ms \<Rightarrow>
          if length s' < length s
          then substitute m (take (length s - length s') s) c pre s' template
                 @ rx_replace_all r m template (pre @ take (length s - length s') s) s'
          else substitute m [] c pre s template
                 @ (case s of [] \<Rightarrow> [] | x # xs \<Rightarrow> x # rx_replace_all r m template (pre @ [x]) xs))"
  by pat_completeness auto
termination
  by (relation "measure (\<lambda>(r, m, template, pre, s). length s)") auto

declare rx_replace_all.simps [simp del]

definition replace_all :: "rx \<Rightarrow> nat \<Rightarrow> string \<Rightarrow> string \<Rightarrow> string" where
  "replace_all r m template s = rx_replace_all r m template [] s"

text \<open>\<open>s.replace(pattern, template)\<close> with a string pattern: the first occurrence only.\<close>

fun find_sub :: "string \<Rightarrow> string \<Rightarrow> (string \<times> string) option" where
  "find_sub pat [] = (if pat = [] then Some ([], []) else None)"
| "find_sub pat (x # xs) =
     (if take (length pat) (x # xs) = pat then Some ([], drop (length pat) (x # xs))
      else (case find_sub pat xs of None \<Rightarrow> None | Some (b, a) \<Rightarrow> Some (x # b, a)))"

definition str_replace :: "string \<Rightarrow> string \<Rightarrow> string \<Rightarrow> string" where
  "str_replace pat template s =
     (case find_sub pat s of
        None \<Rightarrow> s
      | Some (b, a) \<Rightarrow> b @ substitute 0 pat Map.empty b a template @ a)"

section \<open>Markup assembly (icon-utils.ts)\<close>

definition SVG_SHAPE_ELEMENTS :: "string list" where
  "SVG_SHAPE_ELEMENTS =
     [''path'', ''circle'', ''rect'', ''polygon'', ''polyline'', ''line'', ''ellipse'']"

text \<open>
  The expression \<open><ELEMENT(?![^>]*(?:fill=|stroke=))([^>]*?)(/?)>\<close> that
  \<open>applyFillToBody\<close> builds for an element name.
\<close>

definition tagRegex :: "string \<Rightarrow> rx" where
  "tagRegex element =
     Seq (Lit (''<'' @ element))
      (Seq (NotAhead (Seq (Star (Cls (\<lambda>c. c \<noteq> CHR ''>''))) (Alt (Lit ''fill='') (Lit ''stroke=''))))
        (Seq (Grp 1 (Lazy (Cls (\<lambda>c. c \<noteq> CHR ''>''))))
          (Seq (Grp 2 (Opt (Lit ''/''))) (Lit ''>''))))"

definition fill_template :: "string \<Rightarrow> string \<Rightarrow> string" where
  \<open>fill_template element color = ''<'' @ element @ '' fill="'' @ color @ ''"$1$2>''\<close>

definition applyFillToBody :: "string \<Rightarrow> string \<Rightarrow> string" where
  "applyFillToBody body_text color =
     foldl (\<lambda>result element. replace_all (tagRegex element) 2 (fill_template element color) result)
       body_text SVG_SHAPE_ELEMENTS"

text \<open>The decimal digits of a number that is not negative.\<close>

function show_digits :: "int \<Rightarrow> string" where
  "show_digits n = (if n < 10 then [char_of (48 + n)] else show_digits (n div 10) @ [char_of (48 + n mod 10)])"
  by pat_completeness auto
termination
  by (relation "measure nat") auto

declare show_digits.simps [simp del]

text \<open>
  The text of a number in a template string.  Its digits are the shortest decimal digits
  that denote the double: \<open>shortest_from x e\<close> looks for a multiple of \<open>10^e\<close> that
  rounds to \<open>x\<close>, for the largest such \<open>e\<close>, and takes the one nearer to \<open>x\<close> when
  both neighbours do (the even one in a tie).  Below \<open>10^21\<close> that value is written out
  in full, and from there on in exponent notation.  A number up to \<open>2^53\<close> is printed
  with all its digits.
\<close>

fun shortest_from :: "int \<Rightarrow> nat \<Rightarrow> int" where
  "shortest_from x 0 = x"
| "shortest_from x (Suc e) =
     (let p = 10 ^ Suc e; lo = (x div p) * p; hi = lo + p;
          ok_lo = (round_double lo = x);
          ok_hi = (round_double hi = x)
      in if ok_lo \<and> ok_hi
         then (if x - lo < hi - x then lo
               else if hi - x < x - lo then hi
               else if even (x div p) then lo else hi)
         else if ok_lo then lo
         else if ok_hi then hi
         else shortest_from x e)"

definition shortest :: "int \<Rightarrow> int" where
  "shortest x = shortest_from x (length (show_digits x) - 1)"

definition exponent_form :: "int \<Rightarrow> string" where
  "exponent_form v =
     (let ds = show_digits v;
          sig = rev (dropWhile (\<lambda>c. c = CHR ''0'') (rev ds))
      in hd sig # (if tl sig = [] then [] else CHR ''.'' # tl sig)
           @ ''e+'' @ show_digits (int (length ds) - 1))"

definition show_number :: "int \<Rightarrow> string" where
  "show_number x =
     (let v = shortest x in if v < 10 ^ 21 then show_digits v else exponent_form v)"

definition show_int :: "int \<Rightarrow> string" where
  "show_int i = (if i < 0 then ''-'' @ show_number (- i) else show_number i)"

text \<open>\<open>a || b\<close> on an optional number: a missing value and 0 are falsy.\<close>

definition num_or :: "int option \<Rightarrow> int \<Rightarrow> int" where
  "num_or a b = (case a of None \<Rightarrow> b | Some v \<Rightarrow> if v = 0 then b else v)"

record svg_options =
  size :: "int option"
  color :: "string option"

definition buildSvg :: "IconData \<Rightarrow> int option \<times> int option \<Rightarrow> svg_options option \<Rightarrow> string" where
  \<open>buildSvg iconData defaults options =
     (let w = num_or (width iconData) (num_or (fst defaults) 24);
          h = num_or (height iconData) (num_or (snd defaults) 24);
          viewBox = show_int (num_or (icon_left iconData) 0) @ '' ''
                      @ show_int (num_or (icon_top iconData) 0) @ '' ''
                      @ show_int w @ '' '' @ show_int h;
          sz = (case options of None \<Rightarrow> None | Some opts \<Rightarrow> size opts);
          svgSize = (if num_or sz 0 \<noteq> 0
                     then ''width="'' @ show_int (num_or sz 0) @ ''" height="''
                            @ show_int (num_or sz 0) @ ''"''
                     else ''width="1em" height="1em"'');
          col = (case options of
                   None \<Rightarrow> ''currentColor''
                 | Some opts \<Rightarrow>
                     (case color opts of
                        None \<Rightarrow> ''currentColor''
                      | Some v \<Rightarrow> if v = [] then ''currentColor'' else v));
          b = applyFillToBody (body iconData) col
      in ''<svg xmlns="http://www.w3.org/2000/svg" '' @ svgSize @ '' viewBox="'' @ viewBox
           @ ''">'' @ b @ ''</svg>'')\<close>

section \<open>Component code generation (the icons-file module, in SKILLS.md from line 150)\<close>

text \<open>\<open>part.charAt(0).toUpperCase() + part.slice(1).toLowerCase()\<close>.\<close>

definition capitalize :: "string \<Rightarrow> string" where
  "capitalize part = (case part of [] \<Rightarrow> [] | x # xs \<Rightarrow> to_upper x @ map to_lower xs)"

text \<open>
  \<open>const [, name] = iconId.split(":")\<close>: the second piece, when there is one; a missing
  or empty name gives the fallback.
\<close>

definition iconIdToComponentName :: "string \<Rightarrow> string" where
  "iconIdToComponentName icon =
     (case split_by (\<lambda>c. c = CHR '':'') icon of
        p # name # rest \<Rightarrow>
          if name = [] then ''Icon''
          else concat (map capitalize (split_by (\<lambda>c. c = CHR ''-'' \<or> c = CHR ''_'') name)) @ ''Icon''
      | _ \<Rightarrow> ''Icon'')"

text \<open>The expression \<open><\?xml[^>]*\?>\<close>.\<close>

definition xml_declaration :: rx where
  "xml_declaration = Seq (Lit ''<?xml'') (Seq (Star (Cls (\<lambda>c. c \<noteq> CHR ''>''))) (Lit ''?>''))"

definition cleanSvg :: "string \<Rightarrow> string" where
  "cleanSvg svg = trim (replace_all xml_declaration 0 [] svg)"

definition reactSvg :: "string \<Rightarrow> string" where
  "reactSvg svg =
     replace_all (Lit ''stroke-linejoin='') 0 ''strokeLinejoin=''
      (replace_all (Lit ''stroke-linecap='') 0 ''strokeLinecap=''
        (replace_all (Lit ''stroke-width='') 0 ''strokeWidth=''
          (replace_all (Lit ''fill-rule='') 0 ''fillRule=''
            (replace_all (Lit ''clip-path='') 0 ''clipPath=''
              (replace_all (Lit ''class='') 0 ''className='' svg)))))"

definition generateReactComponent :: "string \<Rightarrow> string \<Rightarrow> string \<Rightarrow> string" where
  \<open>generateReactComponent name svg icon =
     ''// '' @ icon @ ''\<newline>''
       @ ''export const '' @ name @ '' = (props: React.SVGProps<SVGSVGElement>) => (\<newline>''
       @ ''  '' @ str_replace ''<svg'' ''<svg {...props}'' (reactSvg svg) @ ''\<newline>''
       @ '');''\<close>

text \<open>Backticks are escaped with a backslash in front.\<close>

definition escape_backticks :: "string \<Rightarrow> string" where
  "escape_backticks svg = replace_all (Lit [CHR 0x60]) 0 [CHR 0x5C, CHR 0x60] svg"

definition generateVueComponent :: "string \<Rightarrow> string \<Rightarrow> string \<Rightarrow> string" where
  \<open>generateVueComponent name svg icon =
     ''// '' @ icon @ ''\<newline>''
       @ ''export const '' @ name @ '' = {\<newline>''
       @ ''  name: "'' @ name @ ''",\<newline>''
       @ ''  inheritAttrs: false,\<newline>''
       @ ''  template: `'' @ str_replace ''<svg'' ''<svg v-bind="$attrs"'' (escape_backticks svg) @ ''`,\<newline>''
       @ ''};''\<close>

definition generateSvelteComponent :: "string \<Rightarrow> string \<Rightarrow> string \<Rightarrow> string" where
  \<open>generateSvelteComponent name svg icon =
     ''// '' @ icon @ ''\<newline>''
       @ ''// Use with: {@html '' @ name @ ''} or {@html '' @ name @ ''WithClass("my-class")}\<newline>''
       @ ''export const '' @ name @ '' = `'' @ escape_backticks svg @ ''`;\<newline>''
       @ ''export const '' @ name @ ''WithClass = (className: string) => `''
       @ str_replace ''<svg'' (''<svg class="'' @ ''${className}"'') (escape_backticks svg) @ ''`;''\<close>

definition generateSolidComponent :: "string \<Rightarrow> string \<Rightarrow> string \<Rightarrow> string" where
  \<open>generateSolidComponent name svg icon =
     ''// '' @ icon @ ''\<newline>''
       @ ''export const '' @ name @ '' = (props: JSX.IntrinsicElements["svg"]) => (\<newline>''
       @ ''  '' @ str_replace ''<svg'' ''<svg {...props}'' svg @ ''\<newline>''
       @ '');''\<close>

definition generateSvgExport :: "string \<Rightarrow> string \<Rightarrow> string \<Rightarrow> string" where
  \<open>generateSvgExport name svg icon =
     ''// '' @ icon @ ''\<newline>''
       @ ''export const '' @ name @ '' = `'' @ svg @ ''`;''\<close>

definition generateIconComponent :: "string \<Rightarrow> string \<Rightarrow> string \<Rightarrow> IconFramework \<Rightarrow> string" where
  "generateIconComponent name svg icon framework =
     (case framework of
        React \<Rightarrow> generateReactComponent name (cleanSvg svg) icon
      | Vue \<Rightarrow> generateVueComponent name (cleanSvg svg) icon
      | Svelte \<Rightarrow> generateSvelteComponent name (cleanSvg svg) icon
      | Solid \<Rightarrow> generateSolidComponent name (cleanSvg svg) icon
      | Svg \<Rightarrow> generateSvgExport name (cleanSvg svg) icon)"

section \<open>The managed icons file (the icons-file module, in SKILLS.md from line 150)\<close>

text \<open>
  The two classes of the identifier pattern: \<open>[\w-]\<close> for the prefix and \<open>[\w\d.-]\<close> for
  the name.
\<close>

definition is_prefix_char :: "char \<Rightarrow> bool" where
  "is_prefix_char c = (is_word c \<or> c = CHR ''-'')"

definition is_name_char :: "char \<Rightarrow> bool" where
  "is_name_char c = (is_word c \<or> is_digit c \<or> c = CHR ''.'' \<or> c = CHR ''-'')"

text \<open>\<open>([\w-]+:[\w\d.-]+)\<close>, the first group of both patterns.\<close>

definition id_group :: rx where
  "id_group = Grp 1 (Seq (Plus (Cls is_prefix_char)) (Seq (Lit '':'') (Plus (Cls is_name_char))))"

text \<open>\<open>export\s+(?:const|function)\s+(\w+)\<close>, with the number of its group.\<close>

definition export_decl :: "nat \<Rightarrow> rx" where
  "export_decl n =
     Seq (Lit ''export'')
      (Seq (Plus (Cls is_space))
        (Seq (Alt (Lit ''const'') (Lit ''function''))
          (Seq (Plus (Cls is_space)) (Grp n (Plus (Cls is_word))))))"

text \<open>\<open>(?:\/\/[^\n]*\n\s*)\<close>, a further comment line between the identifier and the export.\<close>

definition comment_line :: rx where
  "comment_line =
     Seq (Lit ''//'')
      (Seq (Star (Cls (\<lambda>c. c \<noteq> CHR 0x0A))) (Seq (Lit [CHR 0x0A]) (Star (Cls is_space))))"

text \<open>
  \<open>iconPattern\<close>:
  \<open>\/\/\s*([\w-]+:[\w\d.-]+)\s*\n\s*(?:\/\/[^\n]*\n\s*)*export\s+(?:const|function)\s+(\w+)\<close>.
\<close>

definition iconPattern :: rx where
  "iconPattern =
     Seq (Lit ''//'')
      (Seq (Star (Cls is_space))
        (Seq id_group
          (Seq (Star (Cls is_space))
            (Seq (Lit [CHR 0x0A])
              (Seq (Star (Cls is_space))
                (Seq (Star comment_line) (export_decl 2)))))))"

text \<open>\<open>vuePattern\<close>: \<open><!--\s*([\w-]+:[\w\d.-]+)\s*-->\<close>.\<close>

definition vuePattern :: rx where
  "vuePattern =
     Seq (Lit ''<!--'') (Seq (Star (Cls is_space)) (Seq id_group (Seq (Star (Cls is_space)) (Lit ''-->''))))"

text \<open>
  The first \<open>while\<close> loop of \<open>parseExistingIcons\<close>: the successive matches of
  \<open>iconPattern\<close>, each continuing where the one before ended, as pairs of the two
  groups.  A match of this pattern consumes text, so the loop moves on each time.
\<close>

function icon_entries :: "string \<Rightarrow> (string \<times> string) list" where
  "icon_entries content =
     (case rx_exec iconPattern content of
        None \<Rightarrow> []
      | Some (skipped, s', c) \<Rightarrow>
          if length s' < length content
          then (if cap_text c 1 \<noteq> [] \<and> cap_text c 2 \<noteq> []
                then [(cap_text c 1, cap_text c 2)] else []) @ icon_entries s'
          else [])"
  by pat_completeness auto
termination
  by (relation "measure length") auto

declare icon_entries.simps [simp del]

text \<open>
  The second loop: every match of \<open>vuePattern\<close> with the first export declaration found
  from the start of that match on (\<open>content.slice(match.index)\<close>).
\<close>

function vue_entries :: "string \<Rightarrow> (string \<times> string) list" where
  "vue_entries content =
     (case rx_exec vuePattern content of
        None \<Rightarrow> []
      | Some (skipped, s', c) \<Rightarrow>
          if length s' < length content
          then (if cap_text c 1 = [] then []
                else (case rx_exec (export_decl 1) (drop (length skipped) content) of
                        None \<Rightarrow> []
                      | Some (sk, s'', c') \<Rightarrow>
                          if cap_text c' 1 \<noteq> [] then [(cap_text c 1, cap_text c' 1)] else []))
               @ vue_entries s'
          else [])"
  by pat_completeness auto
termination
  by (relation "measure length") auto

declare vue_entries.simps [simp del]

text \<open>\<open>icons.set(iconId, componentName)\<close> for each pair in turn: a later pair wins.\<close>

definition set_all :: "(string \<times> string) list \<Rightarrow> (string \<rightharpoonup> string) \<Rightarrow> (string \<rightharpoonup> string)" where
  "set_all entries m = foldl (\<lambda>acc (k, v). acc(k \<mapsto> v)) m entries"

definition parse_content :: "string \<Rightarrow> (string \<rightharpoonup> string)" where
  "parse_content content = set_all (vue_entries content) (set_all (icon_entries content) Map.empty)"

text \<open>
  The file system as the two functions use it: what a path holds (nothing, a file with
  its text, or something that exists and cannot be read), whether the directory of a
  path is missing, and whether creating that directory or writing the path throws.
\<close>

datatype node = File string | Unreadable

record filesystem =
  nodes :: "string \<rightharpoonup> node"
  dir_missing :: "string \<Rightarrow> bool"
  mkdir_throws :: "string \<Rightarrow> bool"
  write_throws :: "string \<Rightarrow> bool"

definition parseExistingIcons :: "filesystem \<Rightarrow> string \<Rightarrow> (string \<rightharpoonup> string)" where
  "parseExistingIcons fs filePath =
     (case nodes fs filePath of
        None \<Rightarrow> Map.empty
      | Some Unreadable \<Rightarrow> Map.empty
      | Some (File content) \<Rightarrow> parse_content content)"

definition getFileHeader :: "IconFramework \<Rightarrow> string" where
  \<open>getFileHeader framework =
     (case framework of
        React \<Rightarrow>
          ''// Auto-generated icons file - managed by better-icons\<newline>''
          @ ''// Do not edit manually - use sync_icon to add new icons\<newline>''
          @ ''\<newline>''
          @ ''import type React from "react";\<newline>''
          @ ''\<newline>''
      | Solid \<Rightarrow>
          ''// Auto-generated icons file - managed by better-icons\<newline>''
          @ ''// Do not edit manually - use sync_icon to add new icons\<newline>''
          @ ''\<newline>''
          @ ''import type { JSX } from "solid-js";\<newline>''
          @ ''\<newline>''
      | Vue \<Rightarrow>
          ''// Auto-generated icons file - managed by better-icons\<newline>''
          @ ''// Do not edit manually - use sync_icon to add new icons\<newline>''
          @ ''\<newline>''
      | Svelte \<Rightarrow>
          ''// Auto-generated icons file - managed by better-icons\<newline>''
          @ ''// Do not edit manually - use sync_icon to add new icons\<newline>''
          @ ''// Usage: {@html IconName} or {@html IconNameWithClass("my-class")}\<newline>''
          @ ''\<newline>''
      | Svg \<Rightarrow>
          ''// Auto-generated icons file - managed by better-icons\<newline>''
          @ ''// Do not edit manually - use sync_icon to add new icons\<newline>''
          @ ''\<newline>'')\<close>

record add_result =
  componentName :: string
  alreadyExists :: bool
  existingName :: "string option"

text \<open>
  \<open>addIconToFile\<close>.  The result is the error thrown or the value returned, with the
  file system the call leaves.
\<close>

definition addIconToFile ::
  "filesystem \<Rightarrow> string \<Rightarrow> string \<Rightarrow> string \<Rightarrow> IconFramework \<Rightarrow> string option
     \<Rightarrow> (io_error + add_result) \<times> filesystem" where
  "addIconToFile fs filePath icon svg framework customName =
     (let existingIcons = parseExistingIcons fs filePath
      in case existingIcons icon of
           Some existing \<Rightarrow>
             (Inr \<lparr>componentName = existing, alreadyExists = True, existingName = Some existing\<rparr>, fs)
         | None \<Rightarrow>
             (let name = (if truthy customName then the customName else iconIdToComponentName icon);
                  componentCode = generateIconComponent name svg icon framework
              in if dir_missing fs filePath \<and> mkdir_throws fs filePath then (Inl IOError, fs)
                 else
                   (let fs1 = fs\<lparr>dir_missing := (dir_missing fs)(filePath := False)\<rparr>
                    in case nodes fs1 filePath of
                         Some Unreadable \<Rightarrow> (Inl IOError, fs1)
                       | other \<Rightarrow>
                           (let content = (case other of Some (File text) \<Rightarrow> text
                                           | _ \<Rightarrow> getFileHeader framework);
                                content' = trimEnd content @ [CHR 0x0A, CHR 0x0A] @ componentCode @ [CHR 0x0A]
                            in if write_throws fs1 filePath then (Inl IOError, fs1)
                               else (Inr \<lparr>componentName = name, alreadyExists = False, existingName = None\<rparr>,
                                     fs1\<lparr>nodes := (nodes fs1)(filePath \<mapsto> File content')\<rparr>)))))"

text \<open>
  A spread-props point in generated code: the JSX spread \<open>{...props}\<close> or the Vue
  binding \<open>v-bind="$attrs"\<close>, anywhere in the code.
\<close>

definition has_spread_point :: "string \<Rightarrow> bool" where
  \<open>has_spread_point code =
     (find_sub ''{...props}'' code \<noteq> None \<or> find_sub ''v-bind="$attrs"'' code \<noteq> None)\<close>

section \<open>Requests, runs and the notions of the proofs about the managed file\<close>

text \<open>
  The arguments of one call of \<open>addIconToFile\<close> on a given path, and the name the call
  gives a new component: \<open>customName || iconIdToComponentName(iconId)\<close>.
\<close>

record add_request =
  req_icon :: string
  req_svg :: string
  req_framework :: IconFramework
  req_name :: "string option"

definition request_name :: "add_request \<Rightarrow> string" where
  "request_name req =
     (if truthy (req_name req) then the (req_name req) else iconIdToComponentName (req_icon req))"

definition block_of :: "add_request \<Rightarrow> string" where
  "block_of req =
     generateIconComponent (request_name req) (req_svg req) (req_icon req) (req_framework req)"

definition add_request :: "filesystem \<Rightarrow> string \<Rightarrow> add_request \<Rightarrow> (io_error + add_result) \<times> filesystem" where
  "add_request fs filePath req =
     addIconToFile fs filePath (req_icon req) (req_svg req) (req_framework req) (req_name req)"

text \<open>A sequence of calls on one path, each on the file system the call before left.\<close>

definition add_all :: "filesystem \<Rightarrow> string \<Rightarrow> add_request list \<Rightarrow> filesystem" where
  "add_all fs filePath reqs = foldl (\<lambda>fs' req. snd (add_request fs' filePath req)) fs reqs"

text \<open>Neither creating the directory of the path nor writing the path throws.\<close>

definition can_write :: "filesystem \<Rightarrow> string \<Rightarrow> bool" where
  "can_write fs filePath =
     (\<not> write_throws fs filePath \<and> \<not> (dir_missing fs filePath \<and> mkdir_throws fs filePath))"

text \<open>A file system with no file, where directories are created on demand and nothing throws.\<close>

definition empty_fs :: filesystem where
  "empty_fs = \<lparr>nodes = Map.empty, dir_missing = (\<lambda>p. True), mkdir_throws = (\<lambda>p. False),
                write_throws = (\<lambda>p. False)\<rparr>"

text \<open>The blocks that the first loop of the parser finds in the file at a path.\<close>

definition file_entries :: "filesystem \<Rightarrow> string \<Rightarrow> (string \<times> string) list" where
  "file_entries fs filePath =
     (case nodes fs filePath of Some (File text) \<Rightarrow> icon_entries text | _ \<Rightarrow> [])"

text \<open>
  The identifiers that the identifier pattern \<open>[\w-]+:[\w\d.-]+\<close> matches as a whole, the
  component names that \<open>\w+\<close> matches as a whole, and markup on one line without an
  exclamation mark (no comment, doctype or CDATA section).  A request is well formed
  when its identifier, the name it gives and its markup are of these kinds.
\<close>

definition valid_icon_id :: "string \<Rightarrow> bool" where
  "valid_icon_id icon =
     (case dropWhile is_prefix_char icon of
        [] \<Rightarrow> False
      | x # n \<Rightarrow>
          takeWhile is_prefix_char icon \<noteq> [] \<and> x = CHR '':'' \<and> n \<noteq> [] \<and> list_all is_name_char n)"

definition word_name :: "string \<Rightarrow> bool" where
  "word_name name = (name \<noteq> [] \<and> list_all is_word name)"

definition plain_markup :: "string \<Rightarrow> bool" where
  "plain_markup svg = (CHR 0x0A \<notin> set svg \<and> CHR ''!'' \<notin> set svg)"

definition well_formed :: "add_request \<Rightarrow> bool" where
  "well_formed req =
     (valid_icon_id (req_icon req) \<and> word_name (request_name req) \<and> plain_markup (req_svg req))"

text \<open>
  The requests of a sequence that append a block: the first request for each identifier.
  The file they produce: the header of the first request's flavour with its trailing
  white space trimmed, each block after one blank line, and a final line feed.
\<close>

definition keep :: "add_request list \<Rightarrow> add_request \<Rightarrow> add_request list" where
  "keep acc req = (if req_icon req \<in> req_icon ` set acc then acc else acc @ [req])"

definition kept :: "add_request list \<Rightarrow> add_request list" where
  "kept reqs = foldl keep [] reqs"

definition header_text :: "IconFramework \<Rightarrow> string" where
  "header_text framework = trimEnd (getFileHeader framework)"

definition blocks_text :: "add_request list \<Rightarrow> string" where
  "blocks_text rs = concat (map (\<lambda>r. [CHR 0x0A, CHR 0x0A] @ block_of r) rs)"

definition render :: "add_request list \<Rightarrow> string" where
  "render rs = header_text (req_framework (hd rs)) @ blocks_text rs @ [CHR 0x0A]"

definition entry_of :: "add_request \<Rightarrow> string \<times> string" where
  "entry_of req = (req_icon req, request_name req)"

text \<open>The path holds the file of the requests \<open>rs\<close>, or nothing when there are none.\<close>

definition holds :: "filesystem \<Rightarrow> string \<Rightarrow> add_request list \<Rightarrow> bool" where
  "holds fs filePath rs =
     (nodes fs filePath = (if rs = [] then None else Some (File (render rs))))"

definition tidy :: "add_request list \<Rightarrow> bool" where
  "tidy rs = (list_all well_formed rs \<and> distinct (map req_icon rs))"

text \<open>
  The match that a backtracking engine reports is the head of the list of matches;
  \<open>stops p t\<close> says that a run of characters of class \<open>p\<close> cannot go on into \<open>t\<close>.
\<close>

definition first_match :: "rx \<Rightarrow> string \<times> caps \<Rightarrow> string \<times> caps \<Rightarrow> bool" where
  "first_match r st y = (\<exists>ys. rx_match r st = y # ys)"

definition stops :: "(char \<Rightarrow> bool) \<Rightarrow> string \<Rightarrow> bool" where
  "stops p t = (case t of [] \<Rightarrow> True | x # xs \<Rightarrow> \<not> p x)"

text \<open>
  The characters that a match of \<open>iconPattern\<close> can hold between its two slashes and its
  first line feed, and those that can follow that line feed.
\<close>

definition id_or_space :: "char \<Rightarrow> bool" where
  "id_or_space x = (is_space x \<or> is_prefix_char x \<or> is_name_char x \<or> x = CHR '':'')"

definition after_ok :: "char \<Rightarrow> bool" where
  "after_ok x = (id_or_space x \<or> x = CHR ''/'')"

text \<open>
  \<open>quiet t z\<close>: in the text \<open>t\<close> followed by \<open>z\<close>, \<open>iconPattern\<close> matches at no position
  of \<open>t\<close>; \<open>calm t\<close>: whatever follows.  A blocker is what follows embedded markup in
  generated code: a backtick, or a line feed and a closing parenthesis.
\<close>

fun quiet :: "string \<Rightarrow> string \<Rightarrow> bool" where
  "quiet [] z = True"
| "quiet (x # t) z = (rx_match iconPattern (x # t @ z, Map.empty) = [] \<and> quiet t z)"

definition calm :: "string \<Rightarrow> bool" where
  "calm t = (\<forall>z. quiet t z)"

definition blocker :: "string \<Rightarrow> bool" where
  "blocker z = (take 1 z = [CHR 0x60] \<or> take 2 z = [CHR 0x0A, CHR '')''])"

text \<open>
  The shape of a generated block that the parser relies on: the identifier comment, at
  most one further comment line, the export declaration with the name, and a rest that
  begins with no word character, ends with a semicolon and is calm.
\<close>

definition is_comment :: "string \<Rightarrow> bool" where
  "is_comment cm = (cm = [] \<or> (\<exists>l. cm = ''//'' @ l @ [CHR 0x0A] \<and> CHR 0x0A \<notin> set l))"

definition icon_parts :: "string \<Rightarrow> string \<Rightarrow> string \<Rightarrow> bool" where
  "icon_parts icon p n =
     (icon = p @ '':'' @ n \<and> p \<noteq> [] \<and> list_all is_prefix_char p \<and> n \<noteq> [] \<and> list_all is_name_char n)"

definition block_shape :: "string \<Rightarrow> string \<Rightarrow> string \<Rightarrow> bool" where
  "block_shape icon name code =
     (\<exists>cm t. code = ''// '' @ icon @ [CHR 0x0A] @ cm @ ''export const '' @ name @ t
        \<and> is_comment cm \<and> stops is_word t \<and> calm t \<and> t \<noteq> [] \<and> last t = CHR '';'')"

definition plain_char :: "char \<Rightarrow> bool" where
  "plain_char x = (x = CHR 0x0A \<or> x = CHR ''!'')"

section \<open>Alias resolution: claim C6\<close>

lemma resolve_loop_step:
  "alias_entry iconSet current \<noteq> None \<Longrightarrow> depth < maxDepth \<Longrightarrow>
   resolve_loop iconSet maxDepth current depth =
     resolve_loop iconSet maxDepth (alias_parent iconSet current) (depth + 1)"
  by (subst resolve_loop.simps) simp

lemma resolve_loop_done:
  "alias_entry iconSet current = None \<or> \<not> depth < maxDepth \<Longrightarrow>
   resolve_loop iconSet maxDepth current depth = (current, depth)"
  by (subst resolve_loop.simps) auto

lemma resolve_loop_depth:
  "depth \<le> snd (resolve_loop iconSet maxDepth current depth) \<and>
   snd (resolve_loop iconSet maxDepth current depth) \<le> max depth maxDepth"
proof (induction iconSet maxDepth current depth rule: resolve_loop.induct)
  case (1 iconSet maxDepth current depth)
  show ?case
  proof (cases "alias_entry iconSet current \<noteq> None \<and> depth < maxDepth")
    case True
    with 1 show ?thesis
      by (auto simp: resolve_loop_step)
  next
    case False
    then show ?thesis
      by (auto simp: resolve_loop_done)
  qed
qed

lemma resolve_loop_chain:
  "fst (resolve_loop iconSet maxDepth current depth) =
     (alias_parent iconSet ^^ nat (snd (resolve_loop iconSet maxDepth current depth) - depth)) current"
proof (induction iconSet maxDepth current depth rule: resolve_loop.induct)
  case (1 iconSet maxDepth current depth)
  show ?case
  proof (cases "alias_entry iconSet current \<noteq> None \<and> depth < maxDepth")
    case True
    let ?d = "snd (resolve_loop iconSet maxDepth (alias_parent iconSet current) (depth + 1))"
    have le: "depth + 1 \<le> ?d"
      using resolve_loop_depth [of "depth + 1" iconSet maxDepth "alias_parent iconSet current"]
      by simp
    have unfold: "resolve_loop iconSet maxDepth current depth =
        resolve_loop iconSet maxDepth (alias_parent iconSet current) (depth + 1)"
      using True by (simp add: resolve_loop_step)
    have "nat (?d - depth) = Suc (nat (?d - (depth + 1)))"
      using le by simp
    then show ?thesis
      using 1 [OF True] unfold by (simp add: funpow_swap1)
  next
    case False
    then have "resolve_loop iconSet maxDepth current depth = (current, depth)"
      by (simp add: resolve_loop_done)
    then show ?thesis by simp
  qed
qed

lemma resolve_loop_stop:
  "snd (resolve_loop iconSet maxDepth current depth) < maxDepth \<Longrightarrow>
   alias_entry iconSet (fst (resolve_loop iconSet maxDepth current depth)) = None"
proof (induction iconSet maxDepth current depth rule: resolve_loop.induct)
  case (1 iconSet maxDepth current depth)
  show ?case
  proof (cases "alias_entry iconSet current \<noteq> None \<and> depth < maxDepth")
    case True
    then have unfold: "resolve_loop iconSet maxDepth current depth =
        resolve_loop iconSet maxDepth (alias_parent iconSet current) (depth + 1)"
      by (simp add: resolve_loop_step)
    show ?thesis
      using 1 True unfold by simp
  next
    case False
    then have eq: "resolve_loop iconSet maxDepth current depth = (current, depth)"
      by (simp add: resolve_loop_done)
    with 1(2) False show ?thesis by auto
  qed
qed

text \<open>
  Claim C6.  For every icon-set document, starting name and depth bound (also with
  self-referential or cyclic alias chains), \<open>resolveIconAlias\<close> is a total function: it
  makes at most \<open>maxDepth\<close> alias hops (10 by default), its result is the name reached
  by following the chain that many hops from the start, and it stops early only at a
  name with no alias entry.  With aliases \<open>a \<rightarrow> b, b \<rightarrow> c\<close> the input \<open>a\<close> gives \<open>c\<close>,
  a self-referential alias returns, and a name with no alias entry is returned unchanged.
\<close>

theorem resolveIconAlias_bounded:
  "0 \<le> alias_hops iconSet name maxDepth
   \<and> alias_hops iconSet name maxDepth \<le> max 0 maxDepth
   \<and> alias_hops iconSet name default_maxDepth \<le> 10
   \<and> resolveIconAlias iconSet name maxDepth =
       (alias_parent iconSet ^^ nat (alias_hops iconSet name maxDepth)) name
   \<and> (alias_hops iconSet name maxDepth < maxDepth \<longrightarrow>
        alias_entry iconSet (resolveIconAlias iconSet name maxDepth) = None)
   \<and> (alias_entry iconSet name = None \<longrightarrow> resolveIconAlias iconSet name maxDepth = name)
   \<and> resolveIconAlias
        \<lparr>icons = None, aliases = Some [''a'' \<mapsto> Some ''b'', ''b'' \<mapsto> Some ''c''],
         set_width = None, set_height = None\<rparr> ''a'' default_maxDepth = ''c''
   \<and> resolveIconAlias
        \<lparr>icons = None, aliases = Some [''a'' \<mapsto> Some ''a''],
         set_width = None, set_height = None\<rparr> ''a'' default_maxDepth = ''a''"
proof -
  have d: "0 \<le> alias_hops iconSet name maxDepth \<and> alias_hops iconSet name maxDepth \<le> max 0 maxDepth"
    for maxDepth
    unfolding alias_hops_def using resolve_loop_depth [of 0 iconSet maxDepth name] by simp
  have c: "resolveIconAlias iconSet name maxDepth =
       (alias_parent iconSet ^^ nat (alias_hops iconSet name maxDepth)) name"
    unfolding alias_hops_def resolveIconAlias_def
    using resolve_loop_chain [of iconSet maxDepth name 0] by simp
  have s: "alias_hops iconSet name maxDepth < maxDepth \<longrightarrow>
        alias_entry iconSet (resolveIconAlias iconSet name maxDepth) = None"
    unfolding alias_hops_def resolveIconAlias_def
    using resolve_loop_stop [of iconSet maxDepth name 0] by simp
  have u: "alias_entry iconSet name = None \<longrightarrow> resolveIconAlias iconSet name maxDepth = name"
    unfolding resolveIconAlias_def by (simp add: resolve_loop_done)
  have e1: "resolveIconAlias
        \<lparr>icons = None, aliases = Some [''a'' \<mapsto> Some ''b'', ''b'' \<mapsto> Some ''c''],
         set_width = None, set_height = None\<rparr> ''a'' default_maxDepth = ''c''"
    unfolding resolveIconAlias_def default_maxDepth_def
    by (simp add: resolve_loop.simps alias_entry_def alias_parent_def)
  have e2: "resolveIconAlias
        \<lparr>icons = None, aliases = Some [''a'' \<mapsto> Some ''a''],
         set_width = None, set_height = None\<rparr> ''a'' default_maxDepth = ''a''"
    unfolding resolveIconAlias_def default_maxDepth_def
    by (simp add: resolve_loop.simps alias_entry_def alias_parent_def)
  have d10: "alias_hops iconSet name default_maxDepth \<le> 10"
    using d [of default_maxDepth] by (simp add: default_maxDepth_def)
  show ?thesis using d c s u e1 e2 d10 by blast
qed

text \<open>
  The theorem at a cyclic document \<open>a \<rightarrow> b, b \<rightarrow> a\<close> and the bound 3: three hops are
  made, the loop stops at the bound, and the name reached is \<open>b\<close>.
\<close>

theorem resolveIconAlias_bounded_witness:
  "alias_hops \<lparr>icons = None, aliases = Some [''a'' \<mapsto> Some ''b'', ''b'' \<mapsto> Some ''a''],
       set_width = None, set_height = None\<rparr> ''a'' 3 = 3
   \<and> resolveIconAlias \<lparr>icons = None, aliases = Some [''a'' \<mapsto> Some ''b'', ''b'' \<mapsto> Some ''a''],
       set_width = None, set_height = None\<rparr> ''a'' 3 = ''b''
   \<and> alias_entry \<lparr>icons = None, aliases = Some [''a'' \<mapsto> Some ''b'', ''b'' \<mapsto> Some ''a''],
       set_width = None, set_height = None\<rparr> ''x'' = None
   \<and> resolveIconAlias \<lparr>icons = None, aliases = Some [''a'' \<mapsto> Some ''b'', ''b'' \<mapsto> Some ''a''],
       set_width = None, set_height = None\<rparr> ''x'' 3 = ''x''"
proof -
  let ?doc = "\<lparr>icons = None, aliases = Some [''a'' \<mapsto> Some ''b'', ''b'' \<mapsto> Some ''a''],
       set_width = None, set_height = None\<rparr>"
  have h: "alias_hops ?doc ''a'' 3 = 3"
    unfolding alias_hops_def
    by (simp add: resolve_loop.simps alias_entry_def alias_parent_def)
  have n: "alias_entry ?doc ''x'' = None"
    by (simp add: alias_entry_def)
  have p: "(alias_parent ?doc ^^ 3) ''a'' = ''b''"
    by (simp add: numeral_3_eq_3 alias_parent_def alias_entry_def)
  from resolveIconAlias_bounded [of ?doc "''a''" 3] h p
  have r: "resolveIconAlias ?doc ''a'' 3 = ''b''" by simp
  from resolveIconAlias_bounded [of ?doc "''x''" 3] n
  have x: "resolveIconAlias ?doc ''x'' 3 = ''x''" by blast
  show ?thesis using h r n x by blast
qed

section \<open>The preference store: claims C7, C8 and C10\<close>

subsection \<open>The history and the retries: claims C7 and C8\<close>

lemma persisted_history_file:
  "prefs_file st = prefs_file st' \<Longrightarrow> persisted_history st = persisted_history st'"
  by (simp add: persisted_history_def loadPreferences_def split: prefs_file.splits)

lemma history_ok_apply_usage:
  assumes "history_ok (history prefs)"
  shows "history_ok (history (apply_usage prefs p icon t))"
proof (cases "truthy icon")
  case False
  with assms show ?thesis by (simp add: apply_usage_def Let_def)
next
  case True
  let ?e = "\<lparr>iconId = the icon, timestamp = t\<rparr>"
  let ?l = "?e # filter (\<lambda>h. iconId h \<noteq> the icon) (history prefs)"
  have d: "distinct (map iconId ?l)"
    using assms by (auto simp: history_ok_def distinct_map_filter)
  have "distinct (map iconId (take MAX_HISTORY_SIZE ?l))"
    using d by (simp only: take_map [symmetric] distinct_take)
  moreover have "length (take MAX_HISTORY_SIZE ?l) \<le> 50"
    by (simp add: MAX_HISTORY_SIZE_def)
  ultimately show ?thesis
    using True by (simp add: apply_usage_def Let_def history_ok_def)
qed

lemma loadPreferences_history_ok_default:
  "prefs_file st = Absent \<or> prefs_file st = Garbled \<Longrightarrow> persisted_history st = []"
  by (auto simp: persisted_history_def loadPreferences_def)

lemma persisted_history_serialize:
  "prefs_file st = serialize prefs \<Longrightarrow> persisted_history st = history prefs"
  by (simp add: persisted_history_def loadPreferences_def serialize_def)

lemma attempt_history_ok:
  assumes "history_ok (persisted_history st)"
  shows "history_ok (persisted_history (snd (trackUsage_attempt st p icon env)))"
proof -
  obtain prefs shared where l: "loadPreferences st = (prefs, shared)" by (cases "loadPreferences st")
  let ?prefs' = "apply_usage prefs p icon (now env)"
  have h: "history_ok (history ?prefs')"
    using assms l by (intro history_ok_apply_usage) (simp add: persisted_history_def)
  show ?thesis
  proof (cases "save env")
    case Renamed
    then show ?thesis using h l
      by (simp add: trackUsage_attempt_def savePreferences_def persisted_history_serialize Let_def)
  next
    case Failed_untouched
    then have "prefs_file (snd (trackUsage_attempt st p icon env)) = prefs_file st"
      using l by (simp add: trackUsage_attempt_def savePreferences_def Let_def)
    then show ?thesis using assms persisted_history_file by metis
  next
    case Failed_fallback_written
    then show ?thesis using h l
      by (simp add: trackUsage_attempt_def savePreferences_def persisted_history_serialize Let_def)
  next
    case Failed_fallback_torn
    then show ?thesis using l
      by (simp add: trackUsage_attempt_def savePreferences_def Let_def
          loadPreferences_history_ok_default history_ok_def)
  qed
qed

lemma track_loop_history_ok:
  "history_ok (persisted_history st) \<Longrightarrow>
   history_ok (persisted_history (final (track_loop env p icon attempt st log)))"
proof (induction env p icon attempt st log rule: track_loop.induct)
  case (1 env p icon attempt st log)
  obtain r st' where a: "trackUsage_attempt st p icon (env attempt) = (r, st')"
    by (cases "trackUsage_attempt st p icon (env attempt)")
  have ok': "history_ok (persisted_history st')"
    using attempt_history_ok [OF 1(2), of p icon "env attempt"] a by simp
  show ?case
  proof (cases "attempt < maxRetries")
    case False
    then show ?thesis using 1(2) by (subst track_loop.simps) simp
  next
    case True
    show ?thesis
    proof (cases r)
      case (Inr u)
      then show ?thesis using True a ok' by (subst track_loop.simps) simp
    next
      case (Inl e)
      then show ?thesis using True a ok' 1(1) [OF True a [symmetric] Inl]
        by (subst track_loop.simps) simp
    qed
  qed
qed


lemma run_calls_history_ok:
  "history_ok (persisted_history st) \<Longrightarrow> history_ok (persisted_history (run_calls cs st))"
  unfolding run_calls_def
proof (induction cs arbitrary: st)
  case Nil
  then show ?case by simp
next
  case (Cons c cs)
  have "history_ok (persisted_history (run_call c st))"
    unfolding run_call_def trackUsage_def by (rule track_loop_history_ok [OF Cons.prems])
  then show ?case using Cons.IH by simp
qed

lemma attempt_renamed:
  "save env = Renamed \<Longrightarrow>
   trackUsage_attempt st p icon env =
     (Inr (), \<lparr>prefs_file = serialize (apply_usage (fst (loadPreferences st)) p icon (now env)),
               default_collections =
                 (if snd (loadPreferences st)
                  then collections (apply_usage (fst (loadPreferences st)) p icon (now env))
                  else default_collections st)\<rparr>)"
  by (cases "loadPreferences st") (simp add: trackUsage_attempt_def savePreferences_def Let_def)

lemma attempt_not_renamed:
  "save env \<noteq> Renamed \<Longrightarrow> fst (trackUsage_attempt st p icon env) = Inl IOError"
  by (cases "loadPreferences st"; cases "save env")
     (simp_all add: trackUsage_attempt_def savePreferences_def Let_def)

lemma attempt_result_cases:
  "fst (trackUsage_attempt st p icon env) = Inr () \<longleftrightarrow> save env = Renamed"
  using attempt_renamed [of env st p icon] attempt_not_renamed [of env st p icon]
  by (cases "save env = Renamed") auto

lemma track_loop_written:
  "\<exists>k. attempt \<le> k \<and> k < maxRetries \<and> save (env k) = Renamed \<Longrightarrow>
   \<exists>prefs t. prefs_file (final (track_loop env p icon attempt st log)) =
      serialize (apply_usage prefs p icon t)"
proof (induction env p icon attempt st log rule: track_loop.induct)
  case (1 env p icon attempt st log)
  from 1(2) have lt: "attempt < maxRetries" by auto
  show ?case
  proof (cases "save (env attempt) = Renamed")
    case True
    show ?thesis
      using lt attempt_renamed [OF True, of st p icon]
      by (subst track_loop.simps) auto
  next
    case False
    obtain st' where a: "trackUsage_attempt st p icon (env attempt) = (Inl IOError, st')"
      using attempt_not_renamed [OF False, of st p icon]
      by (cases "trackUsage_attempt st p icon (env attempt)") auto
    from 1(2) False have ex: "\<exists>k. attempt + 1 \<le> k \<and> k < maxRetries \<and> save (env k) = Renamed"
      by (metis Suc_eq_plus1 Suc_leI le_neq_implies_less)
    show ?thesis
      using lt a 1(1) [OF lt a [symmetric] refl ex]
      by (subst track_loop.simps) simp
  qed
qed

lemma apply_usage_front:
  assumes "i \<noteq> []"
  shows "history (apply_usage prefs p (Some i) t) \<noteq> []
       \<and> iconId (hd (history (apply_usage prefs p (Some i) t))) = i
       \<and> length (filter (\<lambda>e. iconId e = i) (history (apply_usage prefs p (Some i) t))) = 1"
proof -
  let ?f = "filter (\<lambda>h. iconId h \<noteq> i) (history prefs)"
  have h: "history (apply_usage prefs p (Some i) t) =
      \<lparr>iconId = i, timestamp = t\<rparr> # take 49 ?f"
    using assms by (simp add: apply_usage_def Let_def truthy_def MAX_HISTORY_SIZE_def take_Cons')
  have "filter (\<lambda>e. iconId e = i) (take 49 ?f) = []"
    by (auto simp: filter_empty_conv dest: in_set_takeD)
  then show ?thesis using h by simp
qed

lemma track_loop_outcome:
  "outcome (track_loop env p icon attempt st log) = Inr ()"
proof (induction env p icon attempt st log rule: track_loop.induct)
  case (1 env p icon attempt st log)
  show ?case
  proof (cases "attempt < maxRetries")
    case False
    then show ?thesis by (subst track_loop.simps) simp
  next
    case True
    obtain r st' where a: "trackUsage_attempt st p icon (env attempt) = (r, st')"
      by (cases "trackUsage_attempt st p icon (env attempt)")
    show ?thesis
    proof (cases r)
      case (Inr u)
      then show ?thesis using True a by (subst track_loop.simps) simp
    next
      case (Inl e)
      then show ?thesis using True a 1 [OF True a [symmetric] Inl]
        by (subst track_loop.simps) simp
    qed
  qed
qed

lemma track_loop_attempts:
  "attempt \<le> maxRetries \<Longrightarrow> attempts (track_loop env p icon attempt st log) \<le> maxRetries"
proof (induction env p icon attempt st log rule: track_loop.induct)
  case (1 env p icon attempt st log)
  show ?case
  proof (cases "attempt < maxRetries")
    case False
    then show ?thesis using 1(2) by (subst track_loop.simps) simp
  next
    case True
    obtain r st' where a: "trackUsage_attempt st p icon (env attempt) = (r, st')"
      by (cases "trackUsage_attempt st p icon (env attempt)")
    show ?thesis
    proof (cases r)
      case (Inr u)
      then show ?thesis using True a by (subst track_loop.simps) simp
    next
      case (Inl e)
      then show ?thesis using True a 1(1) [OF True a [symmetric] Inl]
        by (subst track_loop.simps) simp
    qed
  qed
qed

lemma track_loop_all_fail:
  "\<forall>k. attempt \<le> k \<and> k < maxRetries \<longrightarrow> save (env k) \<noteq> Renamed \<Longrightarrow> attempt < maxRetries \<Longrightarrow>
   attempts (track_loop env p icon attempt st log) = maxRetries \<and>
   logged (track_loop env p icon attempt st log) = log @ [''Failed to track icon usage after retries'']"
proof (induction env p icon attempt st log rule: track_loop.induct)
  case (1 env p icon attempt st log)
  have f: "save (env attempt) \<noteq> Renamed" using 1(2,3) by auto
  obtain st' where a: "trackUsage_attempt st p icon (env attempt) = (Inl IOError, st')"
    using attempt_not_renamed [OF f, of st p icon]
    by (cases "trackUsage_attempt st p icon (env attempt)") auto
  show ?case
  proof (cases "attempt + 1 < maxRetries")
    case True
    have all: "\<forall>k. attempt + 1 \<le> k \<and> k < maxRetries \<longrightarrow> save (env k) \<noteq> Renamed"
      using 1(2) by auto
    have ne: "attempt \<noteq> maxRetries - 1" using True by auto
    show ?thesis
      using 1(3) a ne 1(1) [OF 1(3) a [symmetric] refl all True]
      by (subst (1 2) track_loop.simps) simp
  next
    case False
    then have last: "attempt = maxRetries - 1" using 1(3) by auto
    have stop: "\<not> attempt + 1 < maxRetries" by (rule False)
    have rest: "track_loop env p icon (attempt + 1) st'
        (log @ [''Failed to track icon usage after retries'']) =
       \<lparr>outcome = Inr (), final = st', attempts = attempt + 1,
        logged = log @ [''Failed to track icon usage after retries'']\<rparr>"
      using stop by (subst track_loop.simps) simp
    have "attempt + 1 = maxRetries" using last 1(3) by auto
    then show ?thesis
      using 1(3) a last rest
      by (subst (1 2) track_loop.simps) simp
  qed
qed

text \<open>
  Claim C7.  The history that a reader of the preferences file gets keeps the invariant
  of the data model through every sequence of \<open>trackUsage\<close> calls, whatever the
  arguments and whatever the saves meet: it holds on a fresh store, and when it holds
  before a sequence of calls it holds after it (at most 50 entries, no icon twice).
  A call with an icon identifier whose save goes through leaves exactly one entry for
  that identifier, at index 0.
\<close>

theorem trackUsage_history_invariant:
  "history_ok (persisted_history fresh_store)
   \<and> (history_ok (persisted_history st) \<longrightarrow>
        length (persisted_history (run_calls cs st)) \<le> 50
        \<and> distinct (map iconId (persisted_history (run_calls cs st))))
   \<and> (i \<noteq> [] \<and> (\<exists>k<maxRetries. save (env k) = Renamed) \<longrightarrow>
        persisted_history (final (trackUsage st p (Some i) env)) \<noteq> []
        \<and> iconId (hd (persisted_history (final (trackUsage st p (Some i) env)))) = i
        \<and> length (filter (\<lambda>e. iconId e = i)
             (persisted_history (final (trackUsage st p (Some i) env)))) = 1)"
proof -
  have a: "history_ok (persisted_history fresh_store)"
    by (simp add: fresh_store_def persisted_history_def loadPreferences_def history_ok_def)
  have b: "history_ok (persisted_history st) \<longrightarrow>
        length (persisted_history (run_calls cs st)) \<le> 50
        \<and> distinct (map iconId (persisted_history (run_calls cs st)))"
    using run_calls_history_ok [of st cs] by (simp add: history_ok_def)
  have c: "persisted_history (final (trackUsage st p (Some i) env)) \<noteq> []
        \<and> iconId (hd (persisted_history (final (trackUsage st p (Some i) env)))) = i
        \<and> length (filter (\<lambda>e. iconId e = i)
             (persisted_history (final (trackUsage st p (Some i) env)))) = 1"
    if ne: "i \<noteq> []" and ex: "\<exists>k<maxRetries. save (env k) = Renamed"
  proof -
    from ex have "\<exists>k. 0 \<le> k \<and> k < maxRetries \<and> save (env k) = Renamed" by auto
    from track_loop_written [OF this, of p "Some i" st "[]"]
    obtain prefs t where
      f: "prefs_file (final (trackUsage st p (Some i) env)) = serialize (apply_usage prefs p (Some i) t)"
      unfolding trackUsage_def by blast
    show ?thesis
      using apply_usage_front [OF ne, of prefs p t] persisted_history_serialize [OF f]
      by simp
  qed
  show ?thesis using a b c by blast
qed

text \<open>
  The theorem at a concrete run: from a fresh store, three calls whose saves go through
  (\<open>lucide:home\<close>, \<open>mdi:home\<close>, \<open>lucide:home\<close> again) leave the history
  \<open>lucide:home, mdi:home\<close>.
\<close>

theorem trackUsage_history_invariant_witness:
  "history_ok (persisted_history fresh_store)
   \<and> map iconId (persisted_history (run_calls
        [\<lparr>call_prefix = ''lucide'', call_icon = Some ''lucide:home'',
          call_env = (\<lambda>k. \<lparr>now = ''t1'', save = Renamed\<rparr>)\<rparr>,
         \<lparr>call_prefix = ''mdi'', call_icon = Some ''mdi:home'',
          call_env = (\<lambda>k. \<lparr>now = ''t2'', save = Renamed\<rparr>)\<rparr>] fresh_store))
       = [''mdi:home'', ''lucide:home'']
   \<and> length (persisted_history (run_calls
        [\<lparr>call_prefix = ''lucide'', call_icon = Some ''lucide:home'',
          call_env = (\<lambda>k. \<lparr>now = ''t1'', save = Renamed\<rparr>)\<rparr>,
         \<lparr>call_prefix = ''mdi'', call_icon = Some ''mdi:home'',
          call_env = (\<lambda>k. \<lparr>now = ''t2'', save = Renamed\<rparr>)\<rparr>] fresh_store)) \<le> 50
   \<and> ''lucide:home'' \<noteq> []
   \<and> (\<exists>k<maxRetries. save ((\<lambda>k. \<lparr>now = ''t3'', save = Renamed\<rparr>) k) = Renamed)
   \<and> iconId (hd (persisted_history (final (trackUsage
        (run_calls
          [\<lparr>call_prefix = ''lucide'', call_icon = Some ''lucide:home'',
            call_env = (\<lambda>k. \<lparr>now = ''t1'', save = Renamed\<rparr>)\<rparr>,
           \<lparr>call_prefix = ''mdi'', call_icon = Some ''mdi:home'',
            call_env = (\<lambda>k. \<lparr>now = ''t2'', save = Renamed\<rparr>)\<rparr>] fresh_store)
        ''lucide'' (Some ''lucide:home'') (\<lambda>k. \<lparr>now = ''t3'', save = Renamed\<rparr>))))) = ''lucide:home''
   \<and> length (filter (\<lambda>e. iconId e = ''lucide:home'') (persisted_history (final (trackUsage
        (run_calls
          [\<lparr>call_prefix = ''lucide'', call_icon = Some ''lucide:home'',
            call_env = (\<lambda>k. \<lparr>now = ''t1'', save = Renamed\<rparr>)\<rparr>,
           \<lparr>call_prefix = ''mdi'', call_icon = Some ''mdi:home'',
            call_env = (\<lambda>k. \<lparr>now = ''t2'', save = Renamed\<rparr>)\<rparr>] fresh_store)
        ''lucide'' (Some ''lucide:home'') (\<lambda>k. \<lparr>now = ''t3'', save = Renamed\<rparr>))))) = 1"
proof -
  let ?cs = "[\<lparr>call_prefix = ''lucide'', call_icon = Some ''lucide:home'',
          call_env = (\<lambda>k. \<lparr>now = ''t1'', save = Renamed\<rparr>)\<rparr>,
         \<lparr>call_prefix = ''mdi'', call_icon = Some ''mdi:home'',
          call_env = (\<lambda>k. \<lparr>now = ''t2'', save = Renamed\<rparr>)\<rparr>]"
  let ?env = "\<lambda>k::nat. \<lparr>now = ''t3'', save = Renamed\<rparr>"
  have e: "\<exists>k<maxRetries. save (?env k) = Renamed"
    by (auto simp: maxRetries_def intro: exI [of _ 0])
  have v: "map iconId (persisted_history (run_calls ?cs fresh_store)) = [''mdi:home'', ''lucide:home'']"
    by (simp add: run_calls_def run_call_def trackUsage_def track_loop.simps maxRetries_def
        trackUsage_attempt_def loadPreferences_def fresh_store_def apply_usage_def truthy_def
        savePreferences_def serialize_def persisted_history_def MAX_HISTORY_SIZE_def Let_def)
  have n: "''lucide:home'' \<noteq> []" by simp
  have ok: "history_ok (persisted_history fresh_store)"
    using trackUsage_history_invariant [of fresh_store ?cs "''lucide:home''" ?env "''lucide''"]
    by blast
  show ?thesis
    using trackUsage_history_invariant [of fresh_store ?cs "''lucide:home''" ?env "''lucide''"]
      trackUsage_history_invariant [of "run_calls ?cs fresh_store" "[]" "''lucide:home''" ?env "''lucide''"]
      e v n ok
    by blast
qed

text \<open>
  Claim C8.  \<open>trackUsage\<close> never raises: for every prefix, optional icon identifier,
  store and pattern of save failures, the call returns normally after at most 3
  attempts of the read-modify-write cycle; when every attempt fails, all 3 are made and
  the failure is written to the error log once and swallowed.
\<close>

theorem trackUsage_never_raises:
  "outcome (trackUsage st p icon env) = Inr ()
   \<and> attempts (trackUsage st p icon env) \<le> 3
   \<and> ((\<forall>k<3. save (env k) \<noteq> Renamed) \<longrightarrow>
        attempts (trackUsage st p icon env) = 3
        \<and> logged (trackUsage st p icon env) = [''Failed to track icon usage after retries''])"
proof -
  have a: "outcome (trackUsage st p icon env) = Inr ()"
    unfolding trackUsage_def by (rule track_loop_outcome)
  have b: "attempts (trackUsage st p icon env) \<le> 3"
    unfolding trackUsage_def using track_loop_attempts [of 0 env p icon st "[]"]
    by (simp add: maxRetries_def)
  have c: "attempts (trackUsage st p icon env) = 3
        \<and> logged (trackUsage st p icon env) = [''Failed to track icon usage after retries'']"
    if "\<forall>k<3. save (env k) \<noteq> Renamed"
    unfolding trackUsage_def using track_loop_all_fail [of 0 env p icon st "[]"] that
    by (simp add: maxRetries_def)
  show ?thesis using a b c by blast
qed

text \<open>
  The theorem where every save fails, once untouched, once after the fallback write and
  once leaving a partial file: three attempts, one log line, a normal return.
\<close>

theorem trackUsage_never_raises_witness:
  "save ((\<lambda>k. \<lparr>now = ''t'', save =
        (if k = 0 then Failed_untouched else if k = 1 then Failed_fallback_written
         else Failed_fallback_torn)\<rparr>) (0::nat)) \<noteq> Renamed
   \<and> save ((\<lambda>k. \<lparr>now = ''t'', save =
        (if k = 0 then Failed_untouched else if k = 1 then Failed_fallback_written
         else Failed_fallback_torn)\<rparr>) (1::nat)) \<noteq> Renamed
   \<and> save ((\<lambda>k. \<lparr>now = ''t'', save =
        (if k = 0 then Failed_untouched else if k = 1 then Failed_fallback_written
         else Failed_fallback_torn)\<rparr>) (2::nat)) \<noteq> Renamed
   \<and> outcome (trackUsage fresh_store ''lucide'' (Some ''lucide:home'')
        (\<lambda>k. \<lparr>now = ''t'', save =
        (if k = 0 then Failed_untouched else if k = 1 then Failed_fallback_written
         else Failed_fallback_torn)\<rparr>)) = Inr ()
   \<and> attempts (trackUsage fresh_store ''lucide'' (Some ''lucide:home'')
        (\<lambda>k. \<lparr>now = ''t'', save =
        (if k = 0 then Failed_untouched else if k = 1 then Failed_fallback_written
         else Failed_fallback_torn)\<rparr>)) = 3
   \<and> logged (trackUsage fresh_store ''lucide'' (Some ''lucide:home'')
        (\<lambda>k. \<lparr>now = ''t'', save =
        (if k = 0 then Failed_untouched else if k = 1 then Failed_fallback_written
         else Failed_fallback_torn)\<rparr>)) = [''Failed to track icon usage after retries'']"
proof -
  let ?env = "\<lambda>k::nat. \<lparr>now = ''t'', save =
        (if k = 0 then Failed_untouched else if k = 1 then Failed_fallback_written
         else Failed_fallback_torn)\<rparr>"
  have f: "\<forall>k<3. save (?env k) \<noteq> Renamed" by simp
  show ?thesis
    using trackUsage_never_raises [of fresh_store "''lucide''" "Some ''lucide:home''" ?env] f
    by simp
qed

subsection \<open>The count and the frame of an update: claim C10\<close>

lemma ulp_small: "m < 2 ^ 53 \<Longrightarrow> ulp m = 1"
  by (subst ulp.simps) simp

lemma ulp_at_limit: "ulp 9007199254740992 = 2"
  by (subst ulp.simps) (simp add: ulp_small)

lemma round_double_exact:
  assumes "\<bar>x\<bar> \<le> 2 ^ 53"
  shows "round_double x = x"
proof (cases "\<bar>x\<bar> < 2 ^ 53")
  case True
  then show ?thesis by (simp add: round_double_def ulp_small Let_def)
next
  case False
  with assms have "\<bar>x\<bar> = 2 ^ 53" by simp
  then have x: "x = 9007199254740992 \<or> x = - 9007199254740992" by auto
  then have n: "\<bar>x\<bar> = 9007199254740992" by auto
  show ?thesis
    unfolding round_double_def n ulp_at_limit using x by (auto simp: Let_def)
qed

lemma add_number_exact:
  "- (2 ^ 53) \<le> c \<Longrightarrow> c < 2 ^ 53 \<Longrightarrow> add_number c 1 = c + 1"
  unfolding add_number_def by (rule round_double_exact) simp

lemma add_number_at_limit: "add_number (2 ^ 53) 1 = 2 ^ 53"
proof -
  have "ulp \<bar>2 ^ 53 + 1\<bar> = 2"
    by (subst ulp.simps) (simp add: ulp_small)
  then show ?thesis
    by (simp add: add_number_def round_double_def Let_def)
qed

lemma attempt_frame:
  assumes r: "save env = Renamed"
  shows "\<forall>q. q \<noteq> p \<longrightarrow>
           persisted_collections (snd (trackUsage_attempt st p icon env)) q =
             collections (fst (loadPreferences st)) q"
    and "p \<noteq> ''__proto__'' \<Longrightarrow>
           persisted_collections (snd (trackUsage_attempt st p icon env)) p =
             Some \<lparr>usage_count = add_number (existing_count (collections (fst (loadPreferences st))) p) 1,
                   lastUsed = now env\<rparr>"
    and "\<not> truthy icon \<Longrightarrow>
           persisted_history (snd (trackUsage_attempt st p icon env)) =
             history (fst (loadPreferences st))"
proof -
  let ?prefs = "fst (loadPreferences st)"
  let ?st' = "snd (trackUsage_attempt st p icon env)"
  have f: "prefs_file ?st' = serialize (apply_usage ?prefs p icon (now env))"
    using attempt_renamed [OF r, of st p icon] by simp
  have pc: "persisted_collections ?st' = collections (apply_usage ?prefs p icon (now env))"
    using f by (simp add: persisted_collections_def loadPreferences_def serialize_def)
  have ph: "persisted_history ?st' = history (apply_usage ?prefs p icon (now env))"
    using f by (rule persisted_history_serialize)
  show "\<forall>q. q \<noteq> p \<longrightarrow> persisted_collections ?st' q = collections ?prefs q"
    unfolding pc by (simp add: apply_usage_def assign_property_def Let_def)
  show "persisted_collections ?st' p =
      Some \<lparr>usage_count = add_number (existing_count (collections ?prefs) p) 1, lastUsed = now env\<rparr>"
    if "p \<noteq> ''__proto__''"
    unfolding pc using that by (simp add: apply_usage_def assign_property_def Let_def)
  show "persisted_history ?st' = history ?prefs" if "\<not> truthy icon"
    unfolding ph using that by (simp add: apply_usage_def Let_def)
qed

lemma track_loop_success:
  "a + k < maxRetries \<Longrightarrow> \<forall>j<k. save (env (a + j)) \<noteq> Renamed \<Longrightarrow>
   save (env (a + k)) = Renamed \<Longrightarrow>
   track_loop env p icon a st log =
     \<lparr>outcome = Inr (),
      final = snd (trackUsage_attempt (after_failures env p icon a k st) p icon (env (a + k))),
      attempts = a + k + 1, logged = log\<rparr>"
proof (induction k arbitrary: a st)
  case 0
  then have lt: "a < maxRetries" and r: "save (env a) = Renamed" by simp_all
  show ?case
    using lt attempt_renamed [OF r, of st p icon]
    by (subst track_loop.simps) simp
next
  case (Suc k)
  have lt: "a < maxRetries" using Suc.prems(1) by simp
  have ne: "a \<noteq> maxRetries - 1" using Suc.prems(1) by simp
  have f: "save (env a) \<noteq> Renamed" using Suc.prems(2) [rule_format, of 0] by simp
  obtain st' where a: "trackUsage_attempt st p icon (env a) = (Inl IOError, st')"
    using attempt_not_renamed [OF f, of st p icon]
    by (cases "trackUsage_attempt st p icon (env a)") auto
  have 1: "Suc a + k < maxRetries" using Suc.prems(1) by simp
  have 2: "\<forall>j<k. save (env (Suc a + j)) \<noteq> Renamed"
  proof (intro allI impI)
    fix j assume "j < k"
    then show "save (env (Suc a + j)) \<noteq> Renamed"
      using Suc.prems(2) [rule_format, of "Suc j"] by simp
  qed
  have 3: "save (env (Suc a + k)) = Renamed" using Suc.prems(3) by simp
  show ?case
    using lt ne a Suc.IH [OF 1 2 3, of st']
    by (subst track_loop.simps) simp
qed

text \<open>
  Claim C10, as stated, on a preferences file that holds the count \<open>2^53\<close> for
  \<open>lucide\<close>: the call succeeds with its first attempt, and the saved count is the loaded
  count, not the loaded count incremented by 1.  The sum is a double, and \<open>2^53 + 1\<close> is
  not one.
\<close>

theorem trackUsage_count_not_incremented:
  "attempts (trackUsage
       \<lparr>prefs_file = Document
          (Some [''lucide'' \<mapsto> \<lparr>usage_count = 9007199254740992, lastUsed = ''t1''\<rparr>]) (Some []),
        default_collections = Map.empty\<rparr>
       ''lucide'' None (\<lambda>k. \<lparr>now = ''t9'', save = Renamed\<rparr>)) = 1
   \<and> persisted_collections
       \<lparr>prefs_file = Document
          (Some [''lucide'' \<mapsto> \<lparr>usage_count = 9007199254740992, lastUsed = ''t1''\<rparr>]) (Some []),
        default_collections = Map.empty\<rparr> ''lucide''
       = Some \<lparr>usage_count = 9007199254740992, lastUsed = ''t1''\<rparr>
   \<and> persisted_collections (final (trackUsage
       \<lparr>prefs_file = Document
          (Some [''lucide'' \<mapsto> \<lparr>usage_count = 9007199254740992, lastUsed = ''t1''\<rparr>]) (Some []),
        default_collections = Map.empty\<rparr>
       ''lucide'' None (\<lambda>k. \<lparr>now = ''t9'', save = Renamed\<rparr>))) ''lucide''
       = Some \<lparr>usage_count = 9007199254740992, lastUsed = ''t9''\<rparr>"
proof -
  have "add_number 9007199254740992 1 = 9007199254740992"
    using add_number_at_limit by simp
  then show ?thesis
    by (simp add: trackUsage_def track_loop.simps maxRetries_def trackUsage_attempt_def
        loadPreferences_def apply_usage_def assign_property_def existing_count_def truthy_def
        savePreferences_def serialize_def persisted_collections_def Let_def)
qed

text \<open>
  Claim C10, amended.  A call of \<open>trackUsage\<close> whose attempt \<open>k\<close> is the first whose save
  goes through makes \<open>k + 1\<close> attempts and ends in the state that attempt saved, and
  the update changes only its own slice of the preferences.  Compared with the state
  that the attempt loaded, every other prefix's entry is unchanged and the history is
  unchanged when no icon identifier is given.  For a prefix other than \<open>__proto__\<close> the
  entry of the tracked prefix has \<open>lastUsed\<close> set to the current time and, as its count,
  the sum in double arithmetic of the loaded count (0 for a prefix with no entry) and
  1: that is the count incremented by 1 for every count from \<open>-2^53\<close> to \<open>2^53 - 1\<close>.
\<close>

theorem trackUsage_frame:
  assumes "k < maxRetries"
    and "\<forall>j<k. save (env j) \<noteq> Renamed"
    and "save (env k) = Renamed"
  shows "attempts (trackUsage st p icon env) = k + 1
     \<and> final (trackUsage st p icon env) =
          snd (trackUsage_attempt (after_failures env p icon 0 k st) p icon (env k))
     \<and> (\<forall>q. q \<noteq> p \<longrightarrow>
          persisted_collections (final (trackUsage st p icon env)) q =
            collections (fst (loadPreferences (after_failures env p icon 0 k st))) q)
     \<and> (p \<noteq> ''__proto__'' \<longrightarrow>
          persisted_collections (final (trackUsage st p icon env)) p =
            Some \<lparr>usage_count =
                    add_number (existing_count
                      (collections (fst (loadPreferences (after_failures env p icon 0 k st)))) p) 1,
                  lastUsed = now (env k)\<rparr>)
     \<and> (p \<noteq> ''__proto__''
          \<and> - (2 ^ 53) \<le> existing_count
                (collections (fst (loadPreferences (after_failures env p icon 0 k st)))) p
          \<and> existing_count
                (collections (fst (loadPreferences (after_failures env p icon 0 k st)))) p < 2 ^ 53 \<longrightarrow>
          persisted_collections (final (trackUsage st p icon env)) p =
            Some \<lparr>usage_count =
                    existing_count
                      (collections (fst (loadPreferences (after_failures env p icon 0 k st)))) p + 1,
                  lastUsed = now (env k)\<rparr>)
     \<and> (\<not> truthy icon \<longrightarrow>
          persisted_history (final (trackUsage st p icon env)) =
            history (fst (loadPreferences (after_failures env p icon 0 k st))))"
proof -
  let ?st = "after_failures env p icon 0 k st"
  let ?c = "existing_count (collections (fst (loadPreferences ?st))) p"
  have t: "trackUsage st p icon env =
     \<lparr>outcome = Inr (), final = snd (trackUsage_attempt ?st p icon (env k)),
      attempts = k + 1, logged = []\<rparr>"
    unfolding trackUsage_def using track_loop_success [of 0 k env p icon st "[]"] assms by simp
  have 1: "attempts (trackUsage st p icon env) = k + 1" using t by simp
  have 2: "final (trackUsage st p icon env) = snd (trackUsage_attempt ?st p icon (env k))"
    using t by simp
  have 3: "\<forall>q. q \<noteq> p \<longrightarrow>
      persisted_collections (final (trackUsage st p icon env)) q =
        collections (fst (loadPreferences ?st)) q"
    unfolding 2 by (rule attempt_frame(1) [OF assms(3)])
  have 4: "persisted_collections (final (trackUsage st p icon env)) p =
      Some \<lparr>usage_count = add_number ?c 1, lastUsed = now (env k)\<rparr>"
    if "p \<noteq> ''__proto__''"
    unfolding 2 by (rule attempt_frame(2) [OF assms(3) that])
  have 5: "persisted_collections (final (trackUsage st p icon env)) p =
      Some \<lparr>usage_count = ?c + 1, lastUsed = now (env k)\<rparr>"
    if "p \<noteq> ''__proto__''" and "- (2 ^ 53) \<le> ?c" and "?c < 2 ^ 53"
    using 4 [OF that(1)] add_number_exact [OF that(2,3)] by simp
  have 6: "persisted_history (final (trackUsage st p icon env)) =
      history (fst (loadPreferences ?st))"
    if "\<not> truthy icon"
    unfolding 2 by (rule attempt_frame(3) [OF assms(3) that])
  show ?thesis using 1 2 3 4 5 6 by blast
qed

text \<open>
  The theorem on a file that holds \<open>lucide\<close> with count 4, \<open>mdi\<close> with count 2 and one
  history entry, for a call whose first save fails leaving the file untouched and whose
  second goes through: two attempts, \<open>lucide\<close> gets the count 5, and \<open>mdi\<close> and the
  history are as they were.
\<close>

theorem trackUsage_frame_witness:
  "(1::nat) < maxRetries
   \<and> save ((\<lambda>k. \<lparr>now = ''t9'', save = (if k = 0 then Failed_untouched else Renamed)\<rparr>) (0::nat))
       \<noteq> Renamed
   \<and> save ((\<lambda>k. \<lparr>now = ''t9'', save = (if k = 0 then Failed_untouched else Renamed)\<rparr>) (1::nat))
       = Renamed
   \<and> ''mdi'' \<noteq> ''lucide''
   \<and> ''lucide'' \<noteq> ''__proto__''
   \<and> - (2 ^ 53) \<le> (4::int) \<and> (4::int) < 2 ^ 53
   \<and> \<not> truthy None
   \<and> attempts (trackUsage
        \<lparr>prefs_file = Document
           (Some [''lucide'' \<mapsto> \<lparr>usage_count = 4, lastUsed = ''t1''\<rparr>,
                  ''mdi'' \<mapsto> \<lparr>usage_count = 2, lastUsed = ''t0''\<rparr>])
           (Some [\<lparr>iconId = ''mdi:home'', timestamp = ''t0''\<rparr>]),
         default_collections = Map.empty\<rparr>
        ''lucide'' None
        (\<lambda>k. \<lparr>now = ''t9'', save = (if k = 0 then Failed_untouched else Renamed)\<rparr>)) = 2
   \<and> persisted_collections (final (trackUsage
        \<lparr>prefs_file = Document
           (Some [''lucide'' \<mapsto> \<lparr>usage_count = 4, lastUsed = ''t1''\<rparr>,
                  ''mdi'' \<mapsto> \<lparr>usage_count = 2, lastUsed = ''t0''\<rparr>])
           (Some [\<lparr>iconId = ''mdi:home'', timestamp = ''t0''\<rparr>]),
         default_collections = Map.empty\<rparr>
        ''lucide'' None
        (\<lambda>k. \<lparr>now = ''t9'', save = (if k = 0 then Failed_untouched else Renamed)\<rparr>))) ''lucide''
       = Some \<lparr>usage_count = 5, lastUsed = ''t9''\<rparr>
   \<and> persisted_collections (final (trackUsage
        \<lparr>prefs_file = Document
           (Some [''lucide'' \<mapsto> \<lparr>usage_count = 4, lastUsed = ''t1''\<rparr>,
                  ''mdi'' \<mapsto> \<lparr>usage_count = 2, lastUsed = ''t0''\<rparr>])
           (Some [\<lparr>iconId = ''mdi:home'', timestamp = ''t0''\<rparr>]),
         default_collections = Map.empty\<rparr>
        ''lucide'' None
        (\<lambda>k. \<lparr>now = ''t9'', save = (if k = 0 then Failed_untouched else Renamed)\<rparr>))) ''mdi''
       = Some \<lparr>usage_count = 2, lastUsed = ''t0''\<rparr>
   \<and> persisted_history (final (trackUsage
        \<lparr>prefs_file = Document
           (Some [''lucide'' \<mapsto> \<lparr>usage_count = 4, lastUsed = ''t1''\<rparr>,
                  ''mdi'' \<mapsto> \<lparr>usage_count = 2, lastUsed = ''t0''\<rparr>])
           (Some [\<lparr>iconId = ''mdi:home'', timestamp = ''t0''\<rparr>]),
         default_collections = Map.empty\<rparr>
        ''lucide'' None
        (\<lambda>k. \<lparr>now = ''t9'', save = (if k = 0 then Failed_untouched else Renamed)\<rparr>)))
       = [\<lparr>iconId = ''mdi:home'', timestamp = ''t0''\<rparr>]"
proof -
  let ?st = "\<lparr>prefs_file = Document
           (Some [''lucide'' \<mapsto> \<lparr>usage_count = 4, lastUsed = ''t1''\<rparr>,
                  ''mdi'' \<mapsto> \<lparr>usage_count = 2, lastUsed = ''t0''\<rparr>])
           (Some [\<lparr>iconId = ''mdi:home'', timestamp = ''t0''\<rparr>]),
         default_collections = Map.empty\<rparr>"
  let ?env = "\<lambda>k::nat. \<lparr>now = ''t9'', save = (if k = 0 then Failed_untouched else Renamed)\<rparr>"
  have k: "(1::nat) < maxRetries" by (simp add: maxRetries_def)
  have f: "\<forall>j<(1::nat). save (?env j) \<noteq> Renamed" by simp
  have r: "save (?env 1) = Renamed" by simp
  have n: "''mdi'' \<noteq> ''lucide''" and n': "''lucide'' \<noteq> ''__proto__''" by simp_all
  have t: "\<not> truthy None" by (simp add: truthy_def)
  have b: "after_failures ?env ''lucide'' None 0 1 ?st = ?st"
    by (simp add: trackUsage_attempt_def loadPreferences_def savePreferences_def Let_def)
  have l: "fst (loadPreferences ?st) =
      \<lparr>collections = [''lucide'' \<mapsto> \<lparr>usage_count = 4, lastUsed = ''t1''\<rparr>,
                       ''mdi'' \<mapsto> \<lparr>usage_count = 2, lastUsed = ''t0''\<rparr>],
       history = [\<lparr>iconId = ''mdi:home'', timestamp = ''t0''\<rparr>]\<rparr>"
    by (simp add: loadPreferences_def)
  have c: "existing_count (collections (fst (loadPreferences ?st))) ''lucide'' = 4"
    unfolding l by (simp add: existing_count_def)
  note fr = trackUsage_frame [OF k f r, of ?st "''lucide''" None, unfolded b c]
  have 1: "attempts (trackUsage ?st ''lucide'' None ?env) = 2"
    using fr [THEN conjunct1] by simp
  have 2: "persisted_collections (final (trackUsage ?st ''lucide'' None ?env)) ''lucide''
      = Some \<lparr>usage_count = 5, lastUsed = ''t9''\<rparr>"
    using fr [THEN conjunct2, THEN conjunct2, THEN conjunct2, THEN conjunct2, THEN conjunct1] n'
    by simp
  have "persisted_collections (final (trackUsage ?st ''lucide'' None ?env)) ''mdi''
      = collections (fst (loadPreferences ?st)) ''mdi''"
    by (rule fr [THEN conjunct2, THEN conjunct2, THEN conjunct1, rule_format, OF n])
  then have 3: "persisted_collections (final (trackUsage ?st ''lucide'' None ?env)) ''mdi''
      = Some \<lparr>usage_count = 2, lastUsed = ''t0''\<rparr>"
    unfolding l by simp
  have "persisted_history (final (trackUsage ?st ''lucide'' None ?env))
      = history (fst (loadPreferences ?st))"
    by (rule fr [THEN conjunct2, THEN conjunct2, THEN conjunct2, THEN conjunct2, THEN conjunct2,
          rule_format, OF t])
  then have 4: "persisted_history (final (trackUsage ?st ''lucide'' None ?env))
      = [\<lparr>iconId = ''mdi:home'', timestamp = ''t0''\<rparr>]"
    unfolding l by simp
  have f0: "save (?env 0) \<noteq> Renamed" by simp
  have b1: "- (2 ^ 53) \<le> (4::int)" and b2: "(4::int) < 2 ^ 53" by simp_all
  show ?thesis
    by (intro conjI k f0 r n n' b1 b2 t 1 2 3 4)
qed

text \<open>
  Two remarks.  With no file on disk, an attempt whose save fails has already assigned
  into the \<open>collections\<close> object of \<open>DEFAULT_PREFERENCES\<close>, and the next attempt loads
  that object again: one call whose first save fails and whose second goes through
  persists the count 2, which is the count that the second attempt loaded, incremented
  by 1.  And under the prefix \<open>__proto__\<close> a call on a fresh store saves no entry at
  all.
\<close>

lemma trackUsage_retry_counts_twice:
  "persisted_collections (final (trackUsage fresh_store ''lucide'' None
      (\<lambda>k. \<lparr>now = ''t'', save = (if k = 0 then Failed_untouched else Renamed)\<rparr>))) ''lucide''
   = Some \<lparr>usage_count = 2, lastUsed = ''t''\<rparr>"
proof -
  have "add_number 0 1 = 1" "add_number 1 1 = 2"
    by (simp_all add: add_number_exact)
  then show ?thesis
    by (simp add: trackUsage_def track_loop.simps maxRetries_def trackUsage_attempt_def
        loadPreferences_def fresh_store_def apply_usage_def assign_property_def existing_count_def
        truthy_def savePreferences_def serialize_def persisted_collections_def Let_def)
qed

lemma trackUsage_proto_prefix:
  "attempts (trackUsage fresh_store ''__proto__'' None (\<lambda>k. \<lparr>now = ''t'', save = Renamed\<rparr>)) = 1
   \<and> persisted_collections (final (trackUsage fresh_store ''__proto__'' None
        (\<lambda>k. \<lparr>now = ''t'', save = Renamed\<rparr>))) = Map.empty"
  by (simp add: trackUsage_def track_loop.simps maxRetries_def trackUsage_attempt_def
      loadPreferences_def fresh_store_def apply_usage_def assign_property_def existing_count_def
      truthy_def savePreferences_def serialize_def persisted_collections_def Let_def)

section \<open>Ranking: claim C9\<close>

lemma mset_insert_by: "mset (insert_by cmp x ys) = add_mset x (mset ys)"
  by (induction ys) auto

lemma mset_sort_by: "mset (sort_by cmp xs) = mset xs"
  by (induction xs) (auto simp: mset_insert_by)

lemma copy_then_sort:
  assumes "icons_arr < length h"
  shows "(\<forall>a<length h. fst (array_sort cmp (fst (spread_copy h icons_arr)) (snd (spread_copy h icons_arr))) ! a = h ! a)
       \<and> snd (array_sort cmp (fst (spread_copy h icons_arr)) (snd (spread_copy h icons_arr))) < 
           length (fst (array_sort cmp (fst (spread_copy h icons_arr)) (snd (spread_copy h icons_arr))))
       \<and> mset (fst (array_sort cmp (fst (spread_copy h icons_arr)) (snd (spread_copy h icons_arr))) !
           snd (array_sort cmp (fst (spread_copy h icons_arr)) (snd (spread_copy h icons_arr)))) = mset (h ! icons_arr)"
  using assms by (simp add: spread_copy_def array_sort_def nth_append mset_sort_by)

text \<open>
  Claim C9.  For every store of arrays, every array \<open>icons\<close> in it, every style and every
  list of learned preferences, \<open>sortByPreferredCollections\<close> and
  \<open>sortByLearnedPreferences\<close> return an array that is a permutation of \<open>icons\<close>, and
  every array the caller held, \<open>icons\<close> among them, has the same elements in the same
  order after the call.
\<close>

theorem sort_permutation_no_mutation:
  "icons_arr < length h \<longrightarrow>
     (\<forall>a<length h. fst (sortByPreferredCollections h icons_arr s learned) ! a = h ! a)
     \<and> fst (sortByPreferredCollections h icons_arr s learned) ! icons_arr = h ! icons_arr
     \<and> snd (sortByPreferredCollections h icons_arr s learned) <
         length (fst (sortByPreferredCollections h icons_arr s learned))
     \<and> mset (fst (sortByPreferredCollections h icons_arr s learned) !
               snd (sortByPreferredCollections h icons_arr s learned)) = mset (h ! icons_arr)
     \<and> (\<forall>a<length h. fst (sortByLearnedPreferences h icons_arr learned) ! a = h ! a)
     \<and> fst (sortByLearnedPreferences h icons_arr learned) ! icons_arr = h ! icons_arr
     \<and> snd (sortByLearnedPreferences h icons_arr learned) <
         length (fst (sortByLearnedPreferences h icons_arr learned))
     \<and> mset (fst (sortByLearnedPreferences h icons_arr learned) !
               snd (sortByLearnedPreferences h icons_arr learned)) = mset (h ! icons_arr)"
proof
  assume v: "icons_arr < length h"
  have p: "sortByPreferredCollections h icons_arr s learned =
      array_sort (compare_icons (unique (learned @ stylePreferred s)))
        (fst (spread_copy h icons_arr)) (snd (spread_copy h icons_arr))"
    by (simp add: sortByPreferredCollections_def split_def Let_def)
  have l: "sortByLearnedPreferences h icons_arr learned =
      (if learned = [] then (h, icons_arr)
       else array_sort (compare_icons learned)
        (fst (spread_copy h icons_arr)) (snd (spread_copy h icons_arr)))"
    by (simp add: sortByLearnedPreferences_def split_def Let_def)
  note a = copy_then_sort [OF v, of "compare_icons (unique (learned @ stylePreferred s))"]
  note b = copy_then_sort [OF v, of "compare_icons learned"]
  show "(\<forall>a<length h. fst (sortByPreferredCollections h icons_arr s learned) ! a = h ! a)
     \<and> fst (sortByPreferredCollections h icons_arr s learned) ! icons_arr = h ! icons_arr
     \<and> snd (sortByPreferredCollections h icons_arr s learned) <
         length (fst (sortByPreferredCollections h icons_arr s learned))
     \<and> mset (fst (sortByPreferredCollections h icons_arr s learned) !
               snd (sortByPreferredCollections h icons_arr s learned)) = mset (h ! icons_arr)
     \<and> (\<forall>a<length h. fst (sortByLearnedPreferences h icons_arr learned) ! a = h ! a)
     \<and> fst (sortByLearnedPreferences h icons_arr learned) ! icons_arr = h ! icons_arr
     \<and> snd (sortByLearnedPreferences h icons_arr learned) <
         length (fst (sortByLearnedPreferences h icons_arr learned))
     \<and> mset (fst (sortByLearnedPreferences h icons_arr learned) !
               snd (sortByLearnedPreferences h icons_arr learned)) = mset (h ! icons_arr)"
  proof (cases "learned = []")
    case True
    then show ?thesis using a v unfolding p l by simp
  next
    case False
    then show ?thesis using a b v unfolding p l by simp
  qed
qed

text \<open>
  The theorem on the examples of the specification: with style \<open>solid\<close> the \<open>mdi\<close> icon
  comes first, with the learned preference \<open>lucide\<close> the \<open>lucide\<close> icon does, and the
  caller's array is as it was.
\<close>

theorem sort_permutation_no_mutation_witness:
  "(0::nat) < length [[''lucide:b'', ''mdi:a'', ''zz:c'']]
   \<and> sortByPreferredCollections [[''lucide:b'', ''mdi:a'', ''zz:c'']] 0 Style_solid [] =
       ([[''lucide:b'', ''mdi:a'', ''zz:c''], [''mdi:a'', ''lucide:b'', ''zz:c'']], 1)
   \<and> sortByPreferredCollections [[''mdi:a'', ''lucide:b'']] 0 Style_solid [''lucide''] =
       ([[''mdi:a'', ''lucide:b''], [''lucide:b'', ''mdi:a'']], 1)
   \<and> sortByLearnedPreferences [[''lucide:b'', ''mdi:a'', ''zz:c'']] 0 [''zz''] =
       ([[''lucide:b'', ''mdi:a'', ''zz:c''], [''zz:c'', ''lucide:b'', ''mdi:a'']], 1)
   \<and> fst (sortByPreferredCollections [[''lucide:b'', ''mdi:a'', ''zz:c'']] 0 Style_solid []) ! 0
       = [''lucide:b'', ''mdi:a'', ''zz:c'']
   \<and> mset (fst (sortByPreferredCollections [[''lucide:b'', ''mdi:a'', ''zz:c'']] 0 Style_solid []) !
        snd (sortByPreferredCollections [[''lucide:b'', ''mdi:a'', ''zz:c'']] 0 Style_solid []))
       = mset [''lucide:b'', ''mdi:a'', ''zz:c'']"
proof -
  let ?h = "[[''lucide:b'', ''mdi:a'', ''zz:c'']]"
  have v: "(0::nat) < length ?h" by simp
  have e1: "sortByPreferredCollections ?h 0 Style_solid [] =
       ([[''lucide:b'', ''mdi:a'', ''zz:c''], [''mdi:a'', ''lucide:b'', ''zz:c'']], 1)"
    by (simp add: sortByPreferredCollections_def spread_copy_def array_sort_def compare_icons_def
        unique_def set_add_def stylePreferred_def indexOf_def getIconPrefix_def Let_def)
  have e2: "sortByPreferredCollections [[''mdi:a'', ''lucide:b'']] 0 Style_solid [''lucide''] =
       ([[''mdi:a'', ''lucide:b''], [''lucide:b'', ''mdi:a'']], 1)"
    by (simp add: sortByPreferredCollections_def spread_copy_def array_sort_def compare_icons_def
        unique_def set_add_def stylePreferred_def indexOf_def getIconPrefix_def Let_def)
  have e3: "sortByLearnedPreferences ?h 0 [''zz''] =
       ([[''lucide:b'', ''mdi:a'', ''zz:c''], [''zz:c'', ''lucide:b'', ''mdi:a'']], 1)"
    by (simp add: sortByLearnedPreferences_def spread_copy_def array_sort_def compare_icons_def
        indexOf_def getIconPrefix_def Let_def)
  show ?thesis
    using sort_permutation_no_mutation [of 0 ?h Style_solid "[]"] v e1 e2 e3
    by simp
qed

section \<open>Fill injection: claim C4\<close>

text \<open>
  Claim C4, at the inputs of the specification and at a gradient element.  A \<open>path\<close>
  tag with a \<open>stroke\<close> is unchanged and a \<open>path\<close> tag with neither attribute receives
  the fill.  The expression for \<open>line\<close> has nothing after the element name, so it also
  matches the opening tag of \<open>linearGradient\<close>, which is not one of the seven shape
  elements: the fill attribute is written into the middle of its name.
\<close>

theorem applyFillToBody_linearGradient:
  \<open>applyFillToBody ''<path stroke="red" d="X"/>'' ''currentColor'' = ''<path stroke="red" d="X"/>''
   \<and> applyFillToBody ''<path d="X"/>'' ''currentColor'' = ''<path fill="currentColor" d="X"/>''
   \<and> applyFillToBody ''<linearGradient id="g"/>'' ''currentColor''
       = ''<line fill="currentColor"arGradient id="g"/>''
   \<and> buildSvg \<lparr>body = ''<linearGradient id="g"/>'', width = None, height = None,
                  icon_left = None, icon_top = None\<rparr> (None, None) None
       = ''<svg xmlns="http://www.w3.org/2000/svg" width="1em" height="1em" viewBox="0 0 24 24">''
           @ ''<line fill="currentColor"arGradient id="g"/></svg>''\<close>
proof -
  have a: \<open>applyFillToBody ''<path stroke="red" d="X"/>'' ''currentColor'' = ''<path stroke="red" d="X"/>''\<close>
    by code_simp
  have b: \<open>applyFillToBody ''<path d="X"/>'' ''currentColor'' = ''<path fill="currentColor" d="X"/>''\<close>
    by code_simp
  have c: \<open>applyFillToBody ''<linearGradient id="g"/>'' ''currentColor''
       = ''<line fill="currentColor"arGradient id="g"/>''\<close>
    by code_simp
  have d: \<open>buildSvg \<lparr>body = ''<linearGradient id="g"/>'', width = None, height = None,
                  icon_left = None, icon_top = None\<rparr> (None, None) None
       = ''<svg xmlns="http://www.w3.org/2000/svg" width="1em" height="1em" viewBox="0 0 24 24">''
           @ ''<line fill="currentColor"arGradient id="g"/></svg>''\<close>
    by code_simp
  show ?thesis using a b c d by blast
qed

section \<open>Code generation: claim C5\<close>

subsection \<open>Templates and the search for a text\<close>

lemma substitute_plain:
  "CHR ''$'' \<notin> set template \<Longrightarrow> substitute m matched c pre post template = template"
  by (induction m matched c pre post template rule: substitute.induct) auto

lemma template_props: "substitute 0 pat c b a ''<svg {...props}'' = ''<svg {...props}''"
  by (rule substitute_plain) simp

lemma template_attrs:
  \<open>substitute 0 pat c b a ''<svg v-bind="$attrs"'' = ''<svg v-bind="$attrs"''\<close>
  by (simp add: is_digit_def)

lemma template_class:
  \<open>substitute 0 pat c b a (''<svg class="'' @ ''${className}"'') = ''<svg class="'' @ ''${className}"''\<close>
  by (simp add: is_digit_def)

lemma find_sub_Some:
  "find_sub pat s = Some (b, a) \<Longrightarrow> s = b @ pat @ a"
proof (induction s arbitrary: b)
  case Nil
  then show ?case by (auto split: if_splits)
next
  case (Cons x xs)
  show ?case
  proof (cases "take (length pat) (x # xs) = pat")
    case True
    then have "x # xs = pat @ drop (length pat) (x # xs)"
      by (metis append_take_drop_id)
    then show ?thesis using Cons.prems True by auto
  next
    case False
    with Cons.prems obtain b' where "find_sub pat xs = Some (b', a)" "b = x # b'"
      by (auto split: option.splits)
    with Cons.IH show ?thesis by auto
  qed
qed

lemma find_sub_None_Cons:
  "(find_sub pat (x # xs) = None) = (take (length pat) (x # xs) \<noteq> pat \<and> find_sub pat xs = None)"
  by (auto split: option.splits)

lemma find_sub_absent:
  assumes "c \<in> set pat" "c \<notin> set s"
  shows "find_sub pat s = None"
  using assms(2)
proof (induction s)
  case Nil
  then show ?case using assms(1) by auto
next
  case (Cons x xs)
  have "take (length pat) (x # xs) \<noteq> pat"
  proof
    assume "take (length pat) (x # xs) = pat"
    then have "set pat \<subseteq> set (x # xs)" by (metis set_take_subset)
    then show False using assms(1) Cons.prems by auto
  qed
  then show ?case using Cons by (simp add: find_sub_None_Cons del: find_sub.simps)
qed

lemma find_sub_present: "find_sub pat (u @ pat @ v) \<noteq> None"
proof (induction u)
  case Nil
  show ?case
  proof (cases "pat @ v")
    case Nil
    then show ?thesis by simp
  next
    case (Cons x xs)
    have "take (length pat) (x # xs) = pat" using Cons [symmetric] by simp
    then show ?thesis using Cons by simp
  qed
next
  case (Cons x u)
  then show ?case by (auto split: option.splits)
qed

lemma find_sub_skip:
  "h \<notin> set a \<Longrightarrow> (find_sub (h # ps) (a @ b) = None) = (find_sub (h # ps) b = None)"
  by (induction a) (auto simp: find_sub_None_Cons simp del: find_sub.simps)

lemma take_before_separator:
  assumes "d \<notin> set pat"
  shows "(take (length pat) (u @ d # b) = pat) = (take (length pat) u = pat)"
proof (cases "length pat \<le> length u")
  case True
  then show ?thesis by simp
next
  case False
  then have l: "length u < length pat" by simp
  have 1: "take (length pat) (u @ d # b) \<noteq> pat"
  proof
    assume e: "take (length pat) (u @ d # b) = pat"
    have "take (length pat) (u @ d # b) = u @ d # take (length pat - Suc (length u)) b"
      using l by (simp add: take_Cons')
    with e have "pat = u @ d # take (length pat - Suc (length u)) b" by simp
    then have "d \<in> set pat" by (rule ssubst) simp
    then show False using assms by simp
  qed
  have 2: "take (length pat) u \<noteq> pat"
  proof
    assume "take (length pat) u = pat"
    then have "length (take (length pat) u) = length pat" by simp
    then show False using l by simp
  qed
  show ?thesis using 1 2 by simp
qed

lemma find_sub_split:
  assumes "d \<notin> set pat" "pat \<noteq> []"
  shows "(find_sub pat (a @ d # b) = None) = (find_sub pat a = None \<and> find_sub pat b = None)"
proof (induction a)
  case Nil
  have "take (length pat) (d # b) \<noteq> pat"
    using take_before_separator [OF assms(1), of "[]" b] assms(2) by simp
  then show ?case using assms(2) by (simp add: find_sub_None_Cons del: find_sub.simps(2))
next
  case (Cons x a)
  have "(take (length pat) (x # a @ d # b) = pat) = (take (length pat) (x # a) = pat)"
    using take_before_separator [OF assms(1), of "x # a" b] by simp
  then show ?case using Cons
    by (auto simp: find_sub_None_Cons simp del: find_sub.simps)
qed

subsection \<open>Escaped markup and the class helper\<close>

lemma escape_Nil:
  "rx_replace_all (Lit [CHR 0x60]) 0 [CHR 0x5C, CHR 0x60] pre [] = []"
  by (subst rx_replace_all.simps) simp

lemma escape_Cons:
  "rx_replace_all (Lit [CHR 0x60]) 0 [CHR 0x5C, CHR 0x60] pre (x # xs) =
     (if x = CHR 0x60 then [CHR 0x5C, CHR 0x60] else [x])
       @ rx_replace_all (Lit [CHR 0x60]) 0 [CHR 0x5C, CHR 0x60] (pre @ [x]) xs"
  by (subst rx_replace_all.simps) simp

lemma take_escaped:
  assumes "CHR 0x60 \<notin> set pat" "CHR 0x5C \<notin> set pat"
  shows "(take (length pat) (rx_replace_all (Lit [CHR 0x60]) 0 [CHR 0x5C, CHR 0x60] pre s) = pat)
       = (take (length pat) s = pat)"
  using assms
proof (induction pat arbitrary: pre s)
  case Nil
  then show ?case by simp
next
  case (Cons p ps)
  show ?case
  proof (cases s)
    case Nil
    then show ?thesis by (simp add: escape_Nil)
  next
    case (Cons x xs)
    have ih: "(take (length ps) (rx_replace_all (Lit [CHR 0x60]) 0 [CHR 0x5C, CHR 0x60] (pre @ [x]) xs) = ps)
        = (take (length ps) xs = ps)"
      using Cons.prems by (intro Cons.IH) simp_all
    show ?thesis
    proof (cases "x = CHR 0x60")
      case True
      then show ?thesis using Cons Cons.prems by (auto simp: escape_Cons)
    next
      case False
      then show ?thesis using Cons ih by (simp add: escape_Cons)
    qed
  qed
qed

lemma find_sub_escaped:
  assumes "CHR 0x60 \<notin> set pat" "CHR 0x5C \<notin> set pat" "pat \<noteq> []"
  shows "(find_sub pat (rx_replace_all (Lit [CHR 0x60]) 0 [CHR 0x5C, CHR 0x60] pre s) = None)
       = (find_sub pat s = None)"
proof (induction s arbitrary: pre)
  case Nil
  then show ?case by (simp add: escape_Nil)
next
  case (Cons x xs)
  obtain p ps where pat: "pat = p # ps" using assms(3) by (cases pat) auto
  have p: "p \<noteq> CHR 0x60" "p \<noteq> CHR 0x5C" using assms(1,2) pat by auto
  show ?case
  proof (cases "x = CHR 0x60")
    case True
    have "(find_sub pat (CHR 0x5C # CHR 0x60 #
               rx_replace_all (Lit [CHR 0x60]) 0 [CHR 0x5C, CHR 0x60] (pre @ [x]) xs) = None)
        = (find_sub pat (rx_replace_all (Lit [CHR 0x60]) 0 [CHR 0x5C, CHR 0x60] (pre @ [x]) xs) = None)"
      unfolding find_sub_None_Cons using p by (auto simp: pat)
    moreover have "(find_sub pat (x # xs) = None) = (find_sub pat xs = None)"
      unfolding find_sub_None_Cons using p True by (auto simp: pat)
    ultimately show ?thesis using True Cons [of "pre @ [x]"] by (simp add: escape_Cons del: find_sub.simps)
  next
    case False
    have e: "rx_replace_all (Lit [CHR 0x60]) 0 [CHR 0x5C, CHR 0x60] pre (x # xs)
        = x # rx_replace_all (Lit [CHR 0x60]) 0 [CHR 0x5C, CHR 0x60] (pre @ [x]) xs"
      using False by (simp add: escape_Cons)
    have t: "(take (length pat) (x # rx_replace_all (Lit [CHR 0x60]) 0 [CHR 0x5C, CHR 0x60] (pre @ [x]) xs) = pat)
        = (take (length pat) (x # xs) = pat)"
      using take_escaped [OF assms(1,2), of pre "x # xs"] unfolding e .
    show ?thesis
      unfolding e find_sub_None_Cons t using Cons [of "pre @ [x]"] by simp
  qed
qed

lemma has_spread_point_escaped: "has_spread_point (escape_backticks s) = has_spread_point s"
  unfolding has_spread_point_def escape_backticks_def replace_all_def
  by (simp add: find_sub_escaped del: find_sub.simps)

lemma no_spread_point:
  \<open>(\<not> has_spread_point s) =
     (find_sub ''{...props}'' s = None \<and> find_sub ''v-bind="$attrs"'' s = None)\<close>
  unfolding has_spread_point_def by (simp only: de_Morgan_disj not_not)

text \<open>
  The class helper of the \<open>svelte\<close> flavour puts no spread-props point into markup that
  holds none.
\<close>

lemma class_helper_free:
  assumes "\<not> has_spread_point s"
  shows \<open>\<not> has_spread_point (str_replace ''<svg'' (''<svg class="'' @ ''${className}"'') s)\<close>
proof (cases "find_sub ''<svg'' s")
  case None
  then show ?thesis using assms by (simp add: str_replace_def)
next
  case (Some ba)
  obtain b a where ba: "ba = (b, a)" by (cases ba)
  have s: "s = b @ CHR ''<'' # ''svg'' @ a"
    using find_sub_Some [OF Some [unfolded ba]] by simp
  have r: \<open>str_replace ''<svg'' (''<svg class="'' @ ''${className}"'') s
      = b @ CHR ''<'' # ''svg class="${className}"'' @ a\<close>
    using Some ba template_class [of "''<svg''" Map.empty b a] by (simp add: str_replace_def)
  have 1: \<open>find_sub ''{...props}'' b = None \<and> find_sub ''{...props}'' a = None\<close>
    using assms unfolding no_spread_point s
    by (simp add: find_sub_split find_sub_None_Cons del: find_sub.simps)
  have 2: \<open>find_sub ''v-bind="$attrs"'' b = None \<and> find_sub ''v-bind="$attrs"'' a = None\<close>
    using assms unfolding no_spread_point s
    by (simp add: find_sub_split find_sub_None_Cons del: find_sub.simps)
  show ?thesis
    unfolding no_spread_point r using 1 2
    by (simp add: find_sub_split find_sub_None_Cons del: find_sub.simps)
qed

subsection \<open>The root tag\<close>

lemma rx_replace_all_skip:
  "rx_match r (x # xs, Map.empty) = [] \<Longrightarrow>
   rx_replace_all r m template pre (x # xs) = x # rx_replace_all r m template (pre @ [x]) xs"
  by (subst rx_replace_all.simps) simp

lemma reactSvg_root:
  assumes "take 4 s = ''<svg''"
  shows "take 4 (reactSvg s) = ''<svg''"
proof -
  have s: "s = ''<svg'' @ drop 4 s"
    using assms by (metis append_take_drop_id)
  have k: "take 4 (replace_all (Lit w) 0 template u) = ''<svg''"
    if "take 4 u = ''<svg''"
      and "w \<in> {''class='', ''clip-path='', ''fill-rule='', ''stroke-width='',
                ''stroke-linecap='', ''stroke-linejoin=''}"
    for w template u
  proof -
    have u: "u = ''<svg'' @ drop 4 u"
      using that(1) by (metis append_take_drop_id)
    show ?thesis
      using that(2) by (subst u) (auto simp: replace_all_def rx_replace_all_skip)
  qed
  show ?thesis
    unfolding reactSvg_def using assms by (intro k) simp_all
qed

lemma escape_backticks_root:
  assumes "take 4 s = ''<svg''"
  shows "take 4 (escape_backticks s) = ''<svg''"
proof -
  have s: "s = ''<svg'' @ drop 4 s"
    using assms by (metis append_take_drop_id)
  show ?thesis
    unfolding escape_backticks_def
    by (subst s) (simp add: replace_all_def rx_replace_all_skip)
qed

lemma find_sub_root:
  assumes "take 4 s = ''<svg''"
  shows "find_sub ''<svg'' s = Some ([], drop 4 s)"
proof -
  have s: "s = CHR ''<'' # ''svg'' @ drop 4 s"
    using assms by (metis append_take_drop_id append_Cons)
  show ?thesis by (subst (1) s) simp
qed

text \<open>
  Claim C5, as stated, at the flavour \<open>svg\<close>: the markup has an \<open>svg\<close> root element and
  the generated declaration is the markup as it is, in a template string; it holds no
  spread-props point.
\<close>

theorem generateIconComponent_svg_no_spread:
  \<open>take 4 (cleanSvg ''<svg viewBox="0 0 24 24"><path d="M0 0"/></svg>'') = ''<svg''
   \<and> generateIconComponent ''HomeIcon'' ''<svg viewBox="0 0 24 24"><path d="M0 0"/></svg>''
         ''lucide:home'' Svg
       = ''// lucide:home\<newline>''
           @ ''export const HomeIcon = `<svg viewBox="0 0 24 24"><path d="M0 0"/></svg>`;''
   \<and> \<not> has_spread_point
         (generateIconComponent ''HomeIcon'' ''<svg viewBox="0 0 24 24"><path d="M0 0"/></svg>''
            ''lucide:home'' Svg)\<close>
  by code_simp

text \<open>
  Claim C5, amended.  For every flavour the generated block begins with the single-line
  comment \<open>// \<close> followed by the icon identifier as it was given and a line feed.

  The flavours \<open>react\<close> and \<open>solid\<close> put \<open>{...props}\<close>, and \<open>vue\<close> puts
  \<open>v-bind="$attrs"\<close>, right after the first \<open><svg\<close> of the cleaned markup (for
  \<open>react\<close> with its attribute names converted, for \<open>vue\<close> with its backticks escaped):
  when the cleaned markup begins with the \<open>svg\<close> root tag, right after the root tag's
  name.

  The flavour \<open>svg\<close> exports the cleaned markup unchanged.  The flavour \<open>svelte\<close>
  exports it with its backticks escaped, and adds a helper that exports the same text
  with \<open> class="${className}"\<close> after the first \<open><svg\<close> and nothing else.  These two
  flavours inject no spread-props point: when the component name holds neither \<open>{\<close>
  nor \<open>$\<close>, and neither the icon identifier nor the cleaned markup holds \<open>{...props}\<close>
  or \<open>v-bind="$attrs"\<close>, the generated block holds neither.
\<close>

theorem generateIconComponent_shape:
  \<open>(\<exists>rest. generateIconComponent name svg icon framework = ''// '' @ icon @ ''\<newline>'' @ rest)
   \<and> (find_sub ''<svg'' (reactSvg (cleanSvg svg)) = Some (b, a) \<longrightarrow>
        generateIconComponent name svg icon React =
          ''// '' @ icon @ ''\<newline>''
            @ ''export const '' @ name @ '' = (props: React.SVGProps<SVGSVGElement>) => (\<newline>''
            @ ''  '' @ b @ ''<svg {...props}'' @ a @ ''\<newline>'' @ '');''
        \<and> has_spread_point (generateIconComponent name svg icon React))
   \<and> (find_sub ''<svg'' (cleanSvg svg) = Some (b, a) \<longrightarrow>
        generateIconComponent name svg icon Solid =
          ''// '' @ icon @ ''\<newline>''
            @ ''export const '' @ name @ '' = (props: JSX.IntrinsicElements["svg"]) => (\<newline>''
            @ ''  '' @ b @ ''<svg {...props}'' @ a @ ''\<newline>'' @ '');''
        \<and> has_spread_point (generateIconComponent name svg icon Solid))
   \<and> (find_sub ''<svg'' (escape_backticks (cleanSvg svg)) = Some (b, a) \<longrightarrow>
        generateIconComponent name svg icon Vue =
          ''// '' @ icon @ ''\<newline>''
            @ ''export const '' @ name @ '' = {\<newline>''
            @ ''  name: "'' @ name @ ''",\<newline>''
            @ ''  inheritAttrs: false,\<newline>''
            @ ''  template: `'' @ b @ ''<svg v-bind="$attrs"'' @ a @ ''`,\<newline>'' @ ''};''
        \<and> has_spread_point (generateIconComponent name svg icon Vue)
        \<and> generateIconComponent name svg icon Svelte =
          ''// '' @ icon @ ''\<newline>''
            @ ''// Use with: {@html '' @ name @ ''} or {@html '' @ name @ ''WithClass("my-class")}\<newline>''
            @ ''export const '' @ name @ '' = `'' @ escape_backticks (cleanSvg svg) @ ''`;\<newline>''
            @ ''export const '' @ name @ ''WithClass = (className: string) => `''
            @ b @ ''<svg class="${className}"'' @ a @ ''`;'')
   \<and> (take 4 (cleanSvg svg) = ''<svg'' \<longrightarrow>
        generateIconComponent name svg icon React =
          ''// '' @ icon @ ''\<newline>''
            @ ''export const '' @ name @ '' = (props: React.SVGProps<SVGSVGElement>) => (\<newline>''
            @ ''  <svg {...props}'' @ drop 4 (reactSvg (cleanSvg svg)) @ ''\<newline>'' @ '');''
        \<and> generateIconComponent name svg icon Solid =
          ''// '' @ icon @ ''\<newline>''
            @ ''export const '' @ name @ '' = (props: JSX.IntrinsicElements["svg"]) => (\<newline>''
            @ ''  <svg {...props}'' @ drop 4 (cleanSvg svg) @ ''\<newline>'' @ '');''
        \<and> generateIconComponent name svg icon Vue =
          ''// '' @ icon @ ''\<newline>''
            @ ''export const '' @ name @ '' = {\<newline>''
            @ ''  name: "'' @ name @ ''",\<newline>''
            @ ''  inheritAttrs: false,\<newline>''
            @ ''  template: `<svg v-bind="$attrs"'' @ drop 4 (escape_backticks (cleanSvg svg))
            @ ''`,\<newline>'' @ ''};''
        \<and> generateIconComponent name svg icon Svelte =
          ''// '' @ icon @ ''\<newline>''
            @ ''// Use with: {@html '' @ name @ ''} or {@html '' @ name @ ''WithClass("my-class")}\<newline>''
            @ ''export const '' @ name @ '' = `'' @ escape_backticks (cleanSvg svg) @ ''`;\<newline>''
            @ ''export const '' @ name @ ''WithClass = (className: string) => `''
            @ ''<svg class="${className}"'' @ drop 4 (escape_backticks (cleanSvg svg)) @ ''`;'')
   \<and> generateIconComponent name svg icon Svg =
         ''// '' @ icon @ ''\<newline>'' @ ''export const '' @ name @ '' = `'' @ cleanSvg svg @ ''`;''
   \<and> (CHR ''{'' \<notin> set name \<and> CHR ''$'' \<notin> set name
        \<and> \<not> has_spread_point icon \<and> \<not> has_spread_point (cleanSvg svg) \<longrightarrow>
        \<not> has_spread_point (generateIconComponent name svg icon Svg)
        \<and> \<not> has_spread_point (generateIconComponent name svg icon Svelte))\<close>
proof -
  have c: \<open>\<exists>rest. generateIconComponent name svg icon framework = ''// '' @ icon @ ''\<newline>'' @ rest\<close>
    by (cases framework)
       (simp_all add: generateIconComponent_def generateReactComponent_def generateVueComponent_def
          generateSvelteComponent_def generateSolidComponent_def generateSvgExport_def)
  have r: \<open>generateIconComponent name svg icon React =
          ''// '' @ icon @ ''\<newline>''
            @ ''export const '' @ name @ '' = (props: React.SVGProps<SVGSVGElement>) => (\<newline>''
            @ ''  '' @ b @ ''<svg {...props}'' @ a @ ''\<newline>'' @ '');''\<close>
    if "find_sub ''<svg'' (reactSvg (cleanSvg svg)) = Some (b, a)" for b a
    using that template_props [of "''<svg''" Map.empty b a]
    by (simp add: generateIconComponent_def generateReactComponent_def str_replace_def)
  have s: \<open>generateIconComponent name svg icon Solid =
          ''// '' @ icon @ ''\<newline>''
            @ ''export const '' @ name @ '' = (props: JSX.IntrinsicElements["svg"]) => (\<newline>''
            @ ''  '' @ b @ ''<svg {...props}'' @ a @ ''\<newline>'' @ '');''\<close>
    if "find_sub ''<svg'' (cleanSvg svg) = Some (b, a)" for b a
    using that template_props [of "''<svg''" Map.empty b a]
    by (simp add: generateIconComponent_def generateSolidComponent_def str_replace_def)
  have v: \<open>generateIconComponent name svg icon Vue =
          ''// '' @ icon @ ''\<newline>''
            @ ''export const '' @ name @ '' = {\<newline>''
            @ ''  name: "'' @ name @ ''",\<newline>''
            @ ''  inheritAttrs: false,\<newline>''
            @ ''  template: `'' @ b @ ''<svg v-bind="$attrs"'' @ a @ ''`,\<newline>'' @ ''};''\<close>
    if "find_sub ''<svg'' (escape_backticks (cleanSvg svg)) = Some (b, a)" for b a
    using that template_attrs [of "''<svg''" Map.empty b a]
    by (simp add: generateIconComponent_def generateVueComponent_def str_replace_def)
  have e: \<open>generateIconComponent name svg icon Svelte =
          ''// '' @ icon @ ''\<newline>''
            @ ''// Use with: {@html '' @ name @ ''} or {@html '' @ name @ ''WithClass("my-class")}\<newline>''
            @ ''export const '' @ name @ '' = `'' @ escape_backticks (cleanSvg svg) @ ''`;\<newline>''
            @ ''export const '' @ name @ ''WithClass = (className: string) => `''
            @ b @ ''<svg class="${className}"'' @ a @ ''`;''\<close>
    if "find_sub ''<svg'' (escape_backticks (cleanSvg svg)) = Some (b, a)" for b a
    using that template_class [of "''<svg''" Map.empty b a]
    by (simp add: generateIconComponent_def generateSvelteComponent_def str_replace_def)
  have g: \<open>generateIconComponent name svg icon Svg =
         ''// '' @ icon @ ''\<newline>'' @ ''export const '' @ name @ '' = `'' @ cleanSvg svg @ ''`;''\<close>
    by (simp add: generateIconComponent_def generateSvgExport_def)
  have hr: "has_spread_point (generateIconComponent name svg icon React)"
    if f: "find_sub ''<svg'' (reactSvg (cleanSvg svg)) = Some (b, a)" for b a
  proof -
    have \<open>find_sub ''{...props}''
        ((''// '' @ icon @ ''\<newline>''
            @ ''export const '' @ name @ '' = (props: React.SVGProps<SVGSVGElement>) => (\<newline>''
            @ ''  '' @ b @ ''<svg '') @ ''{...props}'' @ (a @ ''\<newline>'' @ '');'')) \<noteq> None\<close>
      by (rule find_sub_present)
    then show ?thesis unfolding has_spread_point_def r [OF f] by simp
  qed
  have hs: "has_spread_point (generateIconComponent name svg icon Solid)"
    if f: "find_sub ''<svg'' (cleanSvg svg) = Some (b, a)" for b a
  proof -
    have \<open>find_sub ''{...props}''
        ((''// '' @ icon @ ''\<newline>''
            @ ''export const '' @ name @ '' = (props: JSX.IntrinsicElements["svg"]) => (\<newline>''
            @ ''  '' @ b @ ''<svg '') @ ''{...props}'' @ (a @ ''\<newline>'' @ '');'')) \<noteq> None\<close>
      by (rule find_sub_present)
    then show ?thesis unfolding has_spread_point_def s [OF f] by simp
  qed
  have hv: "has_spread_point (generateIconComponent name svg icon Vue)"
    if f: "find_sub ''<svg'' (escape_backticks (cleanSvg svg)) = Some (b, a)" for b a
  proof -
    have \<open>find_sub ''v-bind="$attrs"''
        ((''// '' @ icon @ ''\<newline>''
            @ ''export const '' @ name @ '' = {\<newline>''
            @ ''  name: "'' @ name @ ''",\<newline>''
            @ ''  inheritAttrs: false,\<newline>''
            @ ''  template: `'' @ b @ ''<svg '') @ ''v-bind="$attrs"''
            @ (a @ ''`,\<newline>'' @ ''};'')) \<noteq> None\<close>
      by (rule find_sub_present)
    then show ?thesis unfolding has_spread_point_def v [OF f] by simp
  qed
  have root: \<open>generateIconComponent name svg icon React =
          ''// '' @ icon @ ''\<newline>''
            @ ''export const '' @ name @ '' = (props: React.SVGProps<SVGSVGElement>) => (\<newline>''
            @ ''  <svg {...props}'' @ drop 4 (reactSvg (cleanSvg svg)) @ ''\<newline>'' @ '');''
        \<and> generateIconComponent name svg icon Solid =
          ''// '' @ icon @ ''\<newline>''
            @ ''export const '' @ name @ '' = (props: JSX.IntrinsicElements["svg"]) => (\<newline>''
            @ ''  <svg {...props}'' @ drop 4 (cleanSvg svg) @ ''\<newline>'' @ '');''
        \<and> generateIconComponent name svg icon Vue =
          ''// '' @ icon @ ''\<newline>''
            @ ''export const '' @ name @ '' = {\<newline>''
            @ ''  name: "'' @ name @ ''",\<newline>''
            @ ''  inheritAttrs: false,\<newline>''
            @ ''  template: `<svg v-bind="$attrs"'' @ drop 4 (escape_backticks (cleanSvg svg))
            @ ''`,\<newline>'' @ ''};''
        \<and> generateIconComponent name svg icon Svelte =
          ''// '' @ icon @ ''\<newline>''
            @ ''// Use with: {@html '' @ name @ ''} or {@html '' @ name @ ''WithClass("my-class")}\<newline>''
            @ ''export const '' @ name @ '' = `'' @ escape_backticks (cleanSvg svg) @ ''`;\<newline>''
            @ ''export const '' @ name @ ''WithClass = (className: string) => `''
            @ ''<svg class="${className}"'' @ drop 4 (escape_backticks (cleanSvg svg)) @ ''`;''\<close>
    if t: "take 4 (cleanSvg svg) = ''<svg''"
    using r [OF find_sub_root [OF reactSvg_root [OF t]]]
      s [OF find_sub_root [OF t]]
      v [OF find_sub_root [OF escape_backticks_root [OF t]]]
      e [OF find_sub_root [OF escape_backticks_root [OF t]]]
    by simp
  have n: \<open>\<not> has_spread_point (generateIconComponent name svg icon Svg)
        \<and> \<not> has_spread_point (generateIconComponent name svg icon Svelte)\<close>
    if h: \<open>CHR ''{'' \<notin> set name\<close> \<open>CHR ''$'' \<notin> set name\<close>
      \<open>\<not> has_spread_point icon\<close> \<open>\<not> has_spread_point (cleanSvg svg)\<close>
  proof -
    let ?esc = "escape_backticks (cleanSvg svg)"
    let ?helper = \<open>str_replace ''<svg'' (''<svg class="'' @ ''${className}"'') ?esc\<close>
    have i1: \<open>find_sub ''{...props}'' icon = None\<close>
      and i2: \<open>find_sub ''v-bind="$attrs"'' icon = None\<close>
      using h(3) unfolding no_spread_point by simp_all
    have c1: \<open>find_sub ''{...props}'' (cleanSvg svg) = None\<close>
      and c2: \<open>find_sub ''v-bind="$attrs"'' (cleanSvg svg) = None\<close>
      using h(4) unfolding no_spread_point by simp_all
    have n2: \<open>find_sub ''v-bind="$attrs"'' name = None\<close>
      using h(2) by (intro find_sub_absent [of \<open>CHR ''$''\<close>]) simp_all
    have n1: \<open>find_sub ''{...props}'' name = None\<close>
      using h(1) by (intro find_sub_absent [of \<open>CHR ''{''\<close>]) simp_all
    have "\<not> has_spread_point ?esc"
      using h(4) by (simp add: has_spread_point_escaped)
    then have e1: \<open>find_sub ''{...props}'' ?esc = None\<close>
      and e2: \<open>find_sub ''v-bind="$attrs"'' ?esc = None\<close>
      unfolding no_spread_point by simp_all
    have "\<not> has_spread_point ?helper"
      using \<open>\<not> has_spread_point ?esc\<close> by (rule class_helper_free)
    then have h1: \<open>find_sub ''{...props}'' ?helper = None\<close>
      and h2: \<open>find_sub ''v-bind="$attrs"'' ?helper = None\<close>
      unfolding no_spread_point by simp_all
    have svg1: \<open>find_sub ''{...props}'' (generateIconComponent name svg icon Svg) = None\<close>
      using i1 c1 n1
      by (simp add: generateIconComponent_def generateSvgExport_def find_sub_split
          find_sub_None_Cons del: find_sub.simps(2))
    have svg2: \<open>find_sub ''v-bind="$attrs"'' (generateIconComponent name svg icon Svg) = None\<close>
      using i2 c2 n2
      by (simp add: generateIconComponent_def generateSvgExport_def find_sub_split
          find_sub_None_Cons del: find_sub.simps(2))
    have sv1: \<open>find_sub ''{...props}'' (generateIconComponent name svg icon Svelte) = None\<close>
      using i1 e1 h1 n1 h(1)
      by (simp add: generateIconComponent_def generateSvelteComponent_def find_sub_split
          find_sub_skip find_sub_None_Cons del: find_sub.simps(2))
    have sv2: \<open>find_sub ''v-bind="$attrs"'' (generateIconComponent name svg icon Svelte) = None\<close>
      using i2 e2 h2 n2
      by (simp add: generateIconComponent_def generateSvelteComponent_def find_sub_split
          find_sub_None_Cons del: find_sub.simps(2))
    show ?thesis
      unfolding no_spread_point using svg1 svg2 sv1 sv2 by simp
  qed
  show ?thesis using c r s v e g hr hs hv root n by blast
qed

text \<open>
  The theorem on markup with an XML declaration in front and a \<open>class\<close> attribute: the
  declaration is dropped, \<open>react\<close> turns \<open>class\<close> into \<open>className\<close> and the spread
  follows the tag name, and the \<open>svelte\<close> block holds the markup twice, the second time
  with the class attribute, and no spread-props point.  On markup with a doctype in
  front, the spread of \<open>solid\<close> follows the first \<open><svg\<close>, behind the doctype.
\<close>

theorem generateIconComponent_shape_witness:
  \<open>take 4 (cleanSvg ''<?xml version="1.0"?> <svg class="a"><path d="M0 0"/></svg>'') = ''<svg''
   \<and> generateIconComponent ''HomeIcon'' ''<?xml version="1.0"?> <svg class="a"><path d="M0 0"/></svg>''
         ''lucide:home'' React
       = ''// lucide:home\<newline>''
           @ ''export const HomeIcon = (props: React.SVGProps<SVGSVGElement>) => (\<newline>''
           @ ''  <svg {...props} className="a"><path d="M0 0"/></svg>\<newline>''
           @ '');''
   \<and> has_spread_point (generateIconComponent ''HomeIcon''
         ''<?xml version="1.0"?> <svg class="a"><path d="M0 0"/></svg>'' ''lucide:home'' React)
   \<and> has_spread_point (generateIconComponent ''HomeIcon''
         ''<?xml version="1.0"?> <svg class="a"><path d="M0 0"/></svg>'' ''lucide:home'' Vue)
   \<and> generateIconComponent ''HomeIcon'' ''<?xml version="1.0"?> <svg class="a"><path d="M0 0"/></svg>''
         ''lucide:home'' Svelte
       = ''// lucide:home\<newline>''
           @ ''// Use with: {@html HomeIcon} or {@html HomeIconWithClass("my-class")}\<newline>''
           @ ''export const HomeIcon = `<svg class="a"><path d="M0 0"/></svg>`;\<newline>''
           @ ''export const HomeIconWithClass = (className: string) => `''
           @ ''<svg class="${className}" class="a"><path d="M0 0"/></svg>`;''
   \<and> CHR ''{'' \<notin> set ''HomeIcon'' \<and> CHR ''$'' \<notin> set ''HomeIcon''
   \<and> \<not> has_spread_point ''lucide:home''
   \<and> \<not> has_spread_point (cleanSvg ''<?xml version="1.0"?> <svg class="a"><path d="M0 0"/></svg>'')
   \<and> \<not> has_spread_point (generateIconComponent ''HomeIcon''
         ''<?xml version="1.0"?> <svg class="a"><path d="M0 0"/></svg>'' ''lucide:home'' Svg)
   \<and> \<not> has_spread_point (generateIconComponent ''HomeIcon''
         ''<?xml version="1.0"?> <svg class="a"><path d="M0 0"/></svg>'' ''lucide:home'' Svelte)
   \<and> find_sub ''<svg'' (cleanSvg ''<!DOCTYPE svg><svg class="a"/>'')
       = Some (''<!DOCTYPE svg>'', '' class="a"/>'')
   \<and> generateIconComponent ''HomeIcon'' ''<!DOCTYPE svg><svg class="a"/>'' ''lucide:home'' Solid
       = ''// lucide:home\<newline>''
           @ ''export const HomeIcon = (props: JSX.IntrinsicElements["svg"]) => (\<newline>''
           @ ''  <!DOCTYPE svg><svg {...props} class="a"/>\<newline>''
           @ '');''\<close>
proof -
  let ?svg = \<open>''<?xml version="1.0"?> <svg class="a"><path d="M0 0"/></svg>''\<close>
  let ?doc = \<open>''<!DOCTYPE svg><svg class="a"/>''\<close>
  have t: "take 4 (cleanSvg ?svg) = ''<svg''" by code_simp
  have d: \<open>drop 4 (reactSvg (cleanSvg ?svg)) = '' className="a"><path d="M0 0"/></svg>''\<close>
    by code_simp
  have d': \<open>drop 4 (escape_backticks (cleanSvg ?svg)) = '' class="a"><path d="M0 0"/></svg>''\<close>
    by code_simp
  have d'': \<open>escape_backticks (cleanSvg ?svg) = ''<svg class="a"><path d="M0 0"/></svg>''\<close>
    by code_simp
  have r: \<open>generateIconComponent ''HomeIcon'' ?svg ''lucide:home'' React
       = ''// lucide:home\<newline>''
           @ ''export const HomeIcon = (props: React.SVGProps<SVGSVGElement>) => (\<newline>''
           @ ''  <svg {...props} className="a"><path d="M0 0"/></svg>\<newline>''
           @ '');''\<close>
    using generateIconComponent_shape [of "''HomeIcon''" ?svg "''lucide:home''" React] t d
    by simp
  have v: \<open>generateIconComponent ''HomeIcon'' ?svg ''lucide:home'' Vue
       = ''// lucide:home\<newline>''
            @ ''export const HomeIcon = {\<newline>''
            @ ''  name: "HomeIcon",\<newline>''
            @ ''  inheritAttrs: false,\<newline>''
            @ ''  template: `<svg v-bind="$attrs" class="a"><path d="M0 0"/></svg>''
            @ ''`,\<newline>'' @ ''};''\<close>
    using generateIconComponent_shape [of "''HomeIcon''" ?svg "''lucide:home''" Vue] t d'
    by simp
  have e: \<open>generateIconComponent ''HomeIcon'' ?svg ''lucide:home'' Svelte
       = ''// lucide:home\<newline>''
           @ ''// Use with: {@html HomeIcon} or {@html HomeIconWithClass("my-class")}\<newline>''
           @ ''export const HomeIcon = `<svg class="a"><path d="M0 0"/></svg>`;\<newline>''
           @ ''export const HomeIconWithClass = (className: string) => `''
           @ ''<svg class="${className}" class="a"><path d="M0 0"/></svg>`;''\<close>
    using generateIconComponent_shape [of "''HomeIcon''" ?svg "''lucide:home''" Svelte] t d' d''
    by simp
  have hr: "has_spread_point (generateIconComponent ''HomeIcon'' ?svg ''lucide:home'' React)"
    unfolding r by code_simp
  have hv: "has_spread_point (generateIconComponent ''HomeIcon'' ?svg ''lucide:home'' Vue)"
    unfolding v by code_simp
  have n: "CHR ''{'' \<notin> set ''HomeIcon''" "CHR ''$'' \<notin> set ''HomeIcon''" by simp_all
  have i: "\<not> has_spread_point ''lucide:home''" by code_simp
  have c: "\<not> has_spread_point (cleanSvg ?svg)" by code_simp
  have f: "\<not> has_spread_point (generateIconComponent ''HomeIcon'' ?svg ''lucide:home'' Svg)
      \<and> \<not> has_spread_point (generateIconComponent ''HomeIcon'' ?svg ''lucide:home'' Svelte)"
    using generateIconComponent_shape [of "''HomeIcon''" ?svg "''lucide:home''" Svg] n i c
    by blast
  have fd: \<open>find_sub ''<svg'' (cleanSvg ?doc) = Some (''<!DOCTYPE svg>'', '' class="a"/>'')\<close>
    by code_simp
  have s: \<open>generateIconComponent ''HomeIcon'' ?doc ''lucide:home'' Solid
       = ''// lucide:home\<newline>''
           @ ''export const HomeIcon = (props: JSX.IntrinsicElements["svg"]) => (\<newline>''
           @ ''  <!DOCTYPE svg><svg {...props} class="a"/>\<newline>''
           @ '');''\<close>
    using generateIconComponent_shape [of "''HomeIcon''" ?doc "''lucide:home''" Solid
        \<open>''<!DOCTYPE svg>''\<close> \<open>'' class="a"/>''\<close>] fd
    by simp
  show ?thesis using t r hr hv e n i c f fd s by blast
qed

section \<open>The parser on generated files\<close>

subsection \<open>What a match consumes\<close>

lemma rx_match_length:
  "(s', c') \<in> set (rx_match r (s, c)) \<Longrightarrow> length s' \<le> length s"
proof (induction r "(s, c)" arbitrary: s c s' c' rule: rx_match.induct)
  case (1 w s c)
  then show ?case by (auto split: if_splits)
next
  case (2 p s c)
  then show ?case by (auto split: list.splits if_splits)
next
  case (3 a b s c)
  from 3(3) obtain s1 c1 where m: "(s1, c1) \<in> set (rx_match a (s, c))"
    and n: "(s', c') \<in> set (rx_match b (s1, c1))" by auto
  from 3(1) [OF m] 3(2) [OF m n] show ?case by simp
next
  case (4 a b s c)
  then show ?case by auto
next
  case (5 a s c)
  from 5(3) show ?case
    by (subst (asm) rx_match.simps(5)) (use 5(1,2) in \<open>fastforce split: if_splits\<close>)
next
  case (6 a s c)
  from 6(3) show ?case
    by (subst (asm) rx_match.simps(6)) (use 6(1,2) in \<open>fastforce split: if_splits\<close>)
next
  case (7 n a s c)
  then show ?case by auto
next
  case (8 a s c)
  then show ?case by (auto split: if_splits)
qed

lemma rx_match_Lit_iff:
  "(s', c') \<in> set (rx_match (Lit w) (s, c)) \<longleftrightarrow> s = w @ s' \<and> c' = c"
  by (auto simp: append_eq_conv_conj) (metis append_take_drop_id)

lemma rx_match_Seq_iff:
  "x \<in> set (rx_match (Seq a b) st) \<longleftrightarrow> (\<exists>y \<in> set (rx_match a st). x \<in> set (rx_match b y))"
  by (cases st) auto

lemma rx_match_Star_Cls_Nil [simp]:
  "rx_match (Star (Cls p)) ([], c) = [([], c)]"
  by (subst rx_match.simps(5)) simp

lemma rx_match_Star_Cls_Cons:
  "rx_match (Star (Cls p)) (x # s, c) =
     (if p x then rx_match (Star (Cls p)) (s, c) @ [(x # s, c)] else [(x # s, c)])"
  by (subst rx_match.simps(5)) simp

lemma rx_match_Star_Cls_sound:
  "(s', c') \<in> set (rx_match (Star (Cls p)) (s, c)) \<Longrightarrow>
   \<exists>u. s = u @ s' \<and> list_all p u \<and> c' = c"
proof (induction s)
  case Nil
  then show ?case by simp
next
  case (Cons x s)
  show ?case
  proof (cases "(s', c') = (x # s, c)")
    case True
    then have "x # s = [] @ s' \<and> list_all p [] \<and> c' = c" by simp
    then show ?thesis by blast
  next
    case False
    with Cons.prems have px: "p x" and m: "(s', c') \<in> set (rx_match (Star (Cls p)) (s, c))"
      by (auto simp: rx_match_Star_Cls_Cons split: if_splits)
    note IH = Cons.IH
    from IH [OF m] obtain u where "s = u @ s'" "list_all p u" "c' = c" by blast
    then have "x # s = (x # u) @ s' \<and> list_all p (x # u) \<and> c' = c" using px by simp
    then show ?thesis by blast
  qed
qed

lemma rx_match_Cls_iff:
  "(s', c') \<in> set (rx_match (Cls p) (s, c)) \<longleftrightarrow> (\<exists>x. s = x # s' \<and> p x \<and> c' = c)"
  by (cases s) auto

lemma rx_match_Plus_Cls_sound:
  assumes "(s', c') \<in> set (rx_match (Plus (Cls p)) (s, c))"
  shows "\<exists>u. s = u @ s' \<and> list_all p u \<and> u \<noteq> [] \<and> c' = c"
proof -
  have "(s', c') \<in> set (rx_match (Seq (Cls p) (Star (Cls p))) (s, c))"
    using assms by (simp only: Plus_def)
  then obtain y where y: "y \<in> set (rx_match (Cls p) (s, c))"
    and m: "(s', c') \<in> set (rx_match (Star (Cls p)) y)"
    by (simp only: rx_match_Seq_iff) blast
  obtain s1 c1 where yy: "y = (s1, c1)" by (cases y)
  from y [unfolded yy rx_match_Cls_iff] obtain x where s: "s = x # s1" and px: "p x" and c1: "c1 = c"
    by blast
  from rx_match_Star_Cls_sound [OF m [unfolded yy]]
  obtain u where u: "s1 = u @ s'" "list_all p u" "c' = c1" by blast
  have "s = (x # u) @ s'" using s u(1) by simp
  moreover have "list_all p (x # u)" using px u(2) by simp
  ultimately show ?thesis using u(3) c1 by blast
qed

lemma rx_match_Grp_sound:
  "(s', c') \<in> set (rx_match (Grp n a) (s, c)) \<Longrightarrow> \<exists>c0. (s', c0) \<in> set (rx_match a (s, c))"
  by auto

lemma rx_match_Star_cases:
  "x \<in> set (rx_match (Star a) (s, c)) \<Longrightarrow> x = (s, c) \<or> rx_match a (s, c) \<noteq> []"
  by (subst (asm) rx_match.simps(5)) auto

subsection \<open>The first match\<close>

lemma first_Lit: "first_match (Lit w) (w @ s, c) (s, c)"
  by (simp add: first_match_def)

lemma first_Seq:
  "first_match a st x \<Longrightarrow> first_match b x y \<Longrightarrow> first_match (Seq a b) st y"
  by (cases st) (auto simp: first_match_def)

lemma first_Alt_left: "first_match a st y \<Longrightarrow> first_match (Alt a b) st y"
  by (cases st) (auto simp: first_match_def)

lemma first_Star_Cls:
  "list_all p u \<Longrightarrow> stops p t \<Longrightarrow> first_match (Star (Cls p)) (u @ t, c) (t, c)"
proof (induction u)
  case Nil
  then show ?case
    by (cases t) (auto simp: first_match_def stops_def rx_match_Star_Cls_Cons)
next
  case (Cons x u)
  then show ?case
    by (auto simp: first_match_def rx_match_Star_Cls_Cons simp del: rx_match.simps)
qed

lemma first_Plus_Cls:
  "list_all p u \<Longrightarrow> u \<noteq> [] \<Longrightarrow> stops p t \<Longrightarrow> first_match (Plus (Cls p)) (u @ t, c) (t, c)"
proof -
  assume a: "list_all p u" "u \<noteq> []" "stops p t"
  then obtain x u' where u: "u = x # u'" by (cases u) auto
  have 1: "first_match (Cls p) (u @ t, c) (u' @ t, c)"
    using a(1) u by (simp add: first_match_def)
  have 2: "first_match (Star (Cls p)) (u' @ t, c) (t, c)"
    using a u by (intro first_Star_Cls) auto
  show ?thesis unfolding Plus_def by (rule first_Seq [OF 1 2])
qed

lemma first_Grp:
  "first_match a (s, c) (s', c') \<Longrightarrow>
   first_match (Grp n a) (s, c) (s', c'(n \<mapsto> take (length s - length s') s))"
  by (auto simp: first_match_def)

subsection \<open>Where the icon pattern can match\<close>

lemma id_group_sound:
  assumes "(s', c') \<in> set (rx_match id_group (s, c))"
  shows "\<exists>w. s = w @ s' \<and> list_all id_or_space w"
proof -
  from assms obtain c0 where
    "(s', c0) \<in> set (rx_match (Seq (Plus (Cls is_prefix_char))
        (Seq (Lit '':'') (Plus (Cls is_name_char)))) (s, c))"
    unfolding id_group_def by (blast dest: rx_match_Grp_sound)
  then obtain s1 c1 s2 c2 where
    1: "(s1, c1) \<in> set (rx_match (Plus (Cls is_prefix_char)) (s, c))" and
    2: "(s2, c2) \<in> set (rx_match (Lit '':'') (s1, c1))" and
    3: "(s', c0) \<in> set (rx_match (Plus (Cls is_name_char)) (s2, c2))"
    by (simp only: rx_match_Seq_iff) fast
  from rx_match_Plus_Cls_sound [OF 1] obtain p where p: "s = p @ s1" "list_all is_prefix_char p"
    by blast
  from 2 have s1: "s1 = '':'' @ s2" by (simp only: rx_match_Lit_iff)
  from rx_match_Plus_Cls_sound [OF 3] obtain n where n: "s2 = n @ s'" "list_all is_name_char n"
    by blast
  have "s = (p @ '':'' @ n) @ s'" using p(1) s1 n(1) by simp
  moreover have "list_all id_or_space (p @ '':'' @ n)"
    using p(2) n(2) by (auto simp: list_all_iff id_or_space_def)
  ultimately show ?thesis by blast
qed

lemma first_newline_split:
  assumes "list_all P t" "r \<noteq> []" "Q (hd r)" "\<And>x. P x \<Longrightarrow> Q x" "Q (CHR 0x0A)"
  shows "\<exists>u v. t @ CHR 0x0A # r = u @ CHR 0x0A # v \<and> list_all P u \<and> CHR 0x0A \<notin> set u
           \<and> v \<noteq> [] \<and> Q (hd v)"
proof (cases "CHR 0x0A \<in> set t")
  case False
  with assms show ?thesis by blast
next
  case True
  then obtain u t' where t: "t = u @ CHR 0x0A # t'" and u: "CHR 0x0A \<notin> set u"
    by (meson split_list_first)
  let ?v = "t' @ CHR 0x0A # r"
  have "t @ CHR 0x0A # r = u @ CHR 0x0A # ?v" using t by simp
  moreover have "list_all P u" using assms(1) t by simp
  moreover have "?v \<noteq> []" by simp
  moreover have "Q (hd ?v)"
  proof (cases t')
    case Nil
    then show ?thesis using assms(5) by simp
  next
    case (Cons a t'')
    then have "P a" using assms(1) t by simp
    then show ?thesis using Cons assms(4) by simp
  qed
  ultimately show ?thesis using u by blast
qed

lemma export_decl_start:
  "rx_match (export_decl n) (s, c) \<noteq> [] \<Longrightarrow> s \<noteq> [] \<and> hd s = CHR ''e''"
  unfolding export_decl_def by (cases s) (auto split: if_splits)

lemma comment_line_start:
  "rx_match comment_line (s, c) \<noteq> [] \<Longrightarrow> s \<noteq> [] \<and> hd s = CHR ''/''"
  unfolding comment_line_def by (cases s) (auto split: if_splits)

lemma iconPattern_match_shape:
  assumes "rx_match iconPattern (s, c) \<noteq> []"
  shows "\<exists>u v. s = ''//'' @ u @ CHR 0x0A # v \<and> list_all id_or_space u \<and> CHR 0x0A \<notin> set u
           \<and> v \<noteq> [] \<and> after_ok (hd v)"
proof -
  from assms obtain y where "y \<in> set (rx_match iconPattern (s, c))"
    by (cases "rx_match iconPattern (s, c)") auto
  then obtain y1 y2 y3 y4 y5 y6 y7 where
    1: "y1 \<in> set (rx_match (Lit ''//'') (s, c))" and
    2: "y2 \<in> set (rx_match (Star (Cls is_space)) y1)" and
    3: "y3 \<in> set (rx_match id_group y2)" and
    4: "y4 \<in> set (rx_match (Star (Cls is_space)) y3)" and
    5: "y5 \<in> set (rx_match (Lit [CHR 0x0A]) y4)" and
    6: "y6 \<in> set (rx_match (Star (Cls is_space)) y5)" and
    7: "y7 \<in> set (rx_match (Star comment_line) y6)" and
    8: "y \<in> set (rx_match (export_decl 2) y7)"
    unfolding iconPattern_def by (simp only: rx_match_Seq_iff) fast
  obtain s1 c1 where y1: "y1 = (s1, c1)" by (cases y1)
  obtain s2 c2 where y2: "y2 = (s2, c2)" by (cases y2)
  obtain s3 c3 where y3: "y3 = (s3, c3)" by (cases y3)
  obtain s4 c4 where y4: "y4 = (s4, c4)" by (cases y4)
  obtain s5 c5 where y5: "y5 = (s5, c5)" by (cases y5)
  obtain s6 c6 where y6: "y6 = (s6, c6)" by (cases y6)
  obtain s7 c7 where y7: "y7 = (s7, c7)" by (cases y7)
  from 1 have e1: "s = ''//'' @ s1" unfolding y1 by (simp only: rx_match_Lit_iff)
  from rx_match_Star_Cls_sound [OF 2 [unfolded y1 y2]]
  obtain w1 where e2: "s1 = w1 @ s2" "list_all is_space w1" by blast
  from id_group_sound [OF 3 [unfolded y2 y3]]
  obtain w2 where e3: "s2 = w2 @ s3" "list_all id_or_space w2" by blast
  from rx_match_Star_Cls_sound [OF 4 [unfolded y3 y4]]
  obtain w3 where e4: "s3 = w3 @ s4" "list_all is_space w3" by blast
  from 5 have e5: "s4 = CHR 0x0A # s5" unfolding y4 y5 by (simp only: rx_match_Lit_iff) simp
  from rx_match_Star_Cls_sound [OF 6 [unfolded y5 y6]]
  obtain w4 where e6: "s5 = w4 @ s6" "list_all is_space w4" by blast
  have s6: "s6 \<noteq> [] \<and> (hd s6 = CHR ''/'' \<or> hd s6 = CHR ''e'')"
  proof (cases "y7 = y6")
    case True
    with 8 have "rx_match (export_decl 2) (s6, c6) \<noteq> []" unfolding y6 by auto
    from export_decl_start [OF this] show ?thesis by simp
  next
    case False
    with rx_match_Star_cases [OF 7 [unfolded y6]] have "rx_match comment_line (s6, c6) \<noteq> []"
      unfolding y6 by simp
    from comment_line_start [OF this] show ?thesis by simp
  qed
  let ?t = "w1 @ w2 @ w3"
  let ?r = "w4 @ s6"
  have t: "list_all id_or_space ?t"
    using e2(2) e3(2) e4(2) by (auto simp: list_all_iff id_or_space_def)
  have r: "?r \<noteq> []" using s6 by simp
  have e: "after_ok (CHR ''e'')" "after_ok (CHR ''/'')"
    by (simp_all add: after_ok_def id_or_space_def is_prefix_char_def is_word_def)
  have hr: "after_ok (hd ?r)"
  proof (cases w4)
    case Nil
    then show ?thesis using s6 e by auto
  next
    case (Cons a w)
    then show ?thesis using e6(2) by (simp add: after_ok_def id_or_space_def)
  qed
  have nl: "after_ok (CHR 0x0A)"
    by (simp add: after_ok_def id_or_space_def is_space_def)
  from first_newline_split [of id_or_space ?t ?r after_ok, OF t r hr _ nl]
  obtain u v where uv: "?t @ CHR 0x0A # ?r = u @ CHR 0x0A # v" "list_all id_or_space u"
    "CHR 0x0A \<notin> set u" "v \<noteq> []" "after_ok (hd v)"
    by (auto simp: after_ok_def)
  have "s = ''//'' @ ?t @ CHR 0x0A # ?r"
    using e1 e2(1) e3(1) e4(1) e5 e6(1) by simp
  then have "s = ''//'' @ u @ CHR 0x0A # v" using uv(1) by simp
  then show ?thesis using uv(2-5) by blast
qed

lemma quiet_append: "quiet (a @ b) z = (quiet a (b @ z) \<and> quiet b z)"
  by (induction a) auto

lemma iconPattern_needs_slash:
  "x \<noteq> CHR ''/'' \<Longrightarrow> rx_match iconPattern (x # s, c) = []"
  by (simp add: iconPattern_def)

lemma iconPattern_needs_two_slashes:
  "y \<noteq> CHR ''/'' \<Longrightarrow> rx_match iconPattern (x # y # s, c) = []"
  by (simp add: iconPattern_def)

lemma quiet_no_slash: "CHR ''/'' \<notin> set a \<Longrightarrow> quiet a z"
  by (induction a) (auto simp: iconPattern_needs_slash)

lemma split_at_first:
  assumes "x \<notin> set a" "x \<notin> set b" "a @ x # r = b @ x # r'"
  shows "a = b \<and> r = r'"
proof -
  have "takeWhile (\<lambda>y. y \<noteq> x) (a @ x # r) = a"
    using assms(1) by (subst takeWhile_append2) auto
  moreover have "takeWhile (\<lambda>y. y \<noteq> x) (b @ x # r') = b"
    using assms(2) by (subst takeWhile_append2) auto
  ultimately have "a = b" using assms(3) by simp
  then show ?thesis using assms(3) by simp
qed

lemma no_match_before_blocker:
  assumes "CHR 0x0A \<notin> set a" "blocker z"
  shows "rx_match iconPattern (a @ z, c) = []"
proof (rule ccontr)
  assume "rx_match iconPattern (a @ z, c) \<noteq> []"
  from iconPattern_match_shape [OF this]
  obtain u v where e: "a @ z = ''//'' @ u @ CHR 0x0A # v" and u: "list_all id_or_space u"
    "CHR 0x0A \<notin> set u" and v: "v \<noteq> []" "after_ok (hd v)"
    by blast
  let ?P = "\<lambda>x. x \<noteq> CHR 0x0A"
  have n: "CHR 0x0A \<notin> set (''//'' @ u)" using u(2) by simp
  from assms(2) consider z' where "z = CHR 0x60 # z'" | z' where "z = CHR 0x0A # CHR '')'' # z'"
    unfolding blocker_def by (cases z; cases "tl z") auto
  then show False
  proof cases
    case 1
    have "takeWhile ?P (a @ z) = a @ takeWhile ?P z"
      using assms(1) by (intro takeWhile_append2) auto
    then have L: "takeWhile ?P (a @ z) = a @ CHR 0x60 # takeWhile ?P z'"
      unfolding 1 by simp
    have "takeWhile ?P ((''//'' @ u) @ CHR 0x0A # v) = (''//'' @ u) @ takeWhile ?P (CHR 0x0A # v)"
      using n by (intro takeWhile_append2) auto
    then have R: "takeWhile ?P (''//'' @ u @ CHR 0x0A # v) = ''//'' @ u"
      by simp
    from L R have "''//'' @ u = a @ CHR 0x60 # takeWhile ?P z'"
      unfolding e by simp
    then have "CHR 0x60 \<in> set (''//'' @ u)"
      by (simp only: set_append set_simps) blast
    then have "id_or_space (CHR 0x60)"
      using u(1) by (auto simp: list_all_iff)
    then show False
      by (simp add: id_or_space_def is_space_def is_prefix_char_def is_name_char_def
          is_word_def is_digit_def)
  next
    case 2
    have "a @ CHR 0x0A # (CHR '')'' # z') = (''//'' @ u) @ CHR 0x0A # v"
      using e 2 by simp
    then have "CHR '')'' # z' = v"
      using split_at_first [of "CHR 0x0A" a "''//'' @ u" "CHR '')'' # z'" v] assms(1) n
      by blast
    then have "after_ok (CHR '')'')" using v(2) by auto
    then show False
      by (simp add: after_ok_def id_or_space_def is_space_def is_prefix_char_def is_name_char_def
          is_word_def is_digit_def)
  qed
qed

lemma quiet_markup:
  "CHR 0x0A \<notin> set m \<Longrightarrow> blocker z \<Longrightarrow> quiet m z"
proof (induction m)
  case Nil
  then show ?case by simp
next
  case (Cons x m)
  have "rx_match iconPattern ((x # m) @ z, Map.empty) = []"
    by (rule no_match_before_blocker [OF Cons.prems])
  then show ?case using Cons by simp
qed

subsection \<open>The loops of the parser\<close>

lemma iconPattern_consumes:
  assumes "(s', c') \<in> set (rx_match iconPattern (s, c))"
  shows "length s' < length s"
proof -
  from assms obtain y where 1: "y \<in> set (rx_match (Lit ''//'') (s, c))"
    and 2: "(s', c') \<in> set (rx_match (Seq (Star (Cls is_space))
        (Seq id_group
          (Seq (Star (Cls is_space))
            (Seq (Lit [CHR 0x0A])
              (Seq (Star (Cls is_space))
                (Seq (Star comment_line) (export_decl 2))))))) y)"
    unfolding iconPattern_def by (subst (asm) rx_match_Seq_iff) blast
  obtain s1 c1 where y: "y = (s1, c1)" by (cases y)
  from 1 have "s = ''//'' @ s1" unfolding y by (simp only: rx_match_Lit_iff)
  moreover from rx_match_length [OF 2 [unfolded y]] have "length s' \<le> length s1" .
  ultimately show ?thesis by simp
qed

lemma rx_exec_length:
  "rx_exec r s = Some (skipped, s', c) \<Longrightarrow> \<exists>t. (s', c) \<in> set (rx_match r (t, Map.empty)) \<and> length t \<le> length s"
proof (induction s arbitrary: skipped)
  case Nil
  then show ?case by (auto split: list.splits)
next
  case (Cons x xs)
  show ?case
  proof (cases "rx_match r (x # xs, Map.empty)")
    case Nil
    with Cons.prems obtain sk where "rx_exec r xs = Some (sk, s', c)"
      by (auto split: option.splits)
    from Cons.IH [OF this] show ?thesis by auto
  next
    case (Cons m ms)
    with Cons.prems have "m = (s', c)" by auto
    then have "(s', c) \<in> set (rx_match r (x # xs, Map.empty))" using Cons by simp
    then show ?thesis by blast
  qed
qed

lemma icon_entries_Nil [simp]: "icon_entries [] = []"
  by (subst icon_entries.simps) (simp add: iconPattern_def)

lemma icon_entries_skip:
  assumes "rx_match iconPattern (x # xs, Map.empty) = []"
  shows "icon_entries (x # xs) = icon_entries xs"
proof (cases "rx_exec iconPattern xs")
  case None
  then show ?thesis using assms
    by (subst (1 2) icon_entries.simps) simp
next
  case (Some a)
  obtain sk s' c where a: "a = (sk, s', c)" by (cases a)
  from rx_exec_length [OF Some [unfolded a]] obtain t where
    "(s', c) \<in> set (rx_match iconPattern (t, Map.empty))" "length t \<le> length xs" by blast
  with iconPattern_consumes have "length s' < length xs" by fastforce
  then show ?thesis using assms Some a
    by (subst (1 2) icon_entries.simps) simp
qed

lemma icon_entries_quiet:
  "quiet a z \<Longrightarrow> icon_entries (a @ z) = icon_entries z"
  by (induction a) (auto simp: icon_entries_skip)

lemma icon_entries_hit:
  assumes "first_match iconPattern (s, Map.empty) (s', c)"
    and "cap_text c 1 \<noteq> []" "cap_text c 2 \<noteq> []"
  shows "icon_entries s = (cap_text c 1, cap_text c 2) # icon_entries s'"
proof -
  from assms(1) obtain ys where m: "rx_match iconPattern (s, Map.empty) = (s', c) # ys"
    unfolding first_match_def by blast
  then have "(s', c) \<in> set (rx_match iconPattern (s, Map.empty))" by simp
  from iconPattern_consumes [OF this] have l: "length s' < length s" .
  have "rx_exec iconPattern s = Some ([], s', c)"
    using m by (cases s) simp_all
  then show ?thesis using l assms(2,3)
    by (subst icon_entries.simps) simp
qed

lemma vuePattern_needs_bang:
  assumes "CHR ''!'' \<notin> set s"
  shows "rx_match vuePattern (s, c) = []"
proof -
  have l: "rx_match (Lit ''<!--'') (s, c) = []"
  proof (rule ccontr)
    assume "rx_match (Lit ''<!--'') (s, c) \<noteq> []"
    then obtain y where y: "y \<in> set (rx_match (Lit ''<!--'') (s, c))"
      using last_in_set by blast
    obtain s' c' where "y = (s', c')" by (cases y)
    with y have "(s', c') \<in> set (rx_match (Lit ''<!--'') (s, c))" by simp
    then have "s = ''<!--'' @ s'" by (simp only: rx_match_Lit_iff)
    then have "CHR ''!'' \<in> set s" by simp
    then show False using assms by simp
  qed
  show ?thesis
    unfolding vuePattern_def by (subst rx_match.simps(3)) (simp only: l, simp)
qed

lemma vuePattern_consumes:
  assumes "(s', c') \<in> set (rx_match vuePattern (s, c))"
  shows "length s' < length s"
proof -
  from assms obtain y where 1: "y \<in> set (rx_match (Lit ''<!--'') (s, c))"
    and 2: "(s', c') \<in> set (rx_match (Seq (Star (Cls is_space))
        (Seq id_group (Seq (Star (Cls is_space)) (Lit ''-->'')))) y)"
    unfolding vuePattern_def by (subst (asm) rx_match_Seq_iff) blast
  obtain s1 c1 where y: "y = (s1, c1)" by (cases y)
  from 1 have "s = ''<!--'' @ s1" unfolding y by (simp only: rx_match_Lit_iff)
  moreover from rx_match_length [OF 2 [unfolded y]] have "length s' \<le> length s1" .
  ultimately show ?thesis by simp
qed

lemma rx_exec_vue_None:
  "CHR ''!'' \<notin> set s \<Longrightarrow> rx_exec vuePattern s = None"
  by (induction s) (simp_all add: vuePattern_needs_bang)

lemma vue_entries_no_bang:
  "CHR ''!'' \<notin> set s \<Longrightarrow> vue_entries s = []"
  by (subst vue_entries.simps) (simp add: rx_exec_vue_None)

lemma rx_match_suffix:
  "(s', c') \<in> set (rx_match r (s, c)) \<Longrightarrow> \<exists>w. s = w @ s'"
proof (induction r "(s, c)" arbitrary: s c s' c' rule: rx_match.induct)
  case (1 w s c)
  then show ?case by (simp only: rx_match_Lit_iff) blast
next
  case (2 p s c)
  then have "\<exists>x. s = x # s'" by (simp only: rx_match_Cls_iff) blast
  then show ?case by (metis append_Cons append_Nil)
next
  case (3 a b s c)
  from 3(3) obtain s1 c1 where m: "(s1, c1) \<in> set (rx_match a (s, c))"
    and n: "(s', c') \<in> set (rx_match b (s1, c1))" by auto
  from 3(1) [OF m] 3(2) [OF m n] show ?case by (metis append.assoc)
next
  case (4 a b s c)
  then show ?case by auto
next
  case (5 a s c)
  from 5(3) have "(s', c') = (s, c) \<or>
      (\<exists>s1 c1. (s1, c1) \<in> set (rx_match a (s, c)) \<and> length s1 < length s
         \<and> (s', c') \<in> set (rx_match (Star a) (s1, c1)))"
    by (subst (asm) rx_match.simps(5)) (auto split: if_splits)
  then show ?case
  proof
    assume "(s', c') = (s, c)"
    then show ?thesis by simp
  next
    assume "\<exists>s1 c1. (s1, c1) \<in> set (rx_match a (s, c)) \<and> length s1 < length s
         \<and> (s', c') \<in> set (rx_match (Star a) (s1, c1))"
    then obtain s1 c1 where m: "(s1, c1) \<in> set (rx_match a (s, c))" and l: "length s1 < length s"
      and n: "(s', c') \<in> set (rx_match (Star a) (s1, c1))" by blast
    from 5(1) [OF m] 5(2) [OF m _ l n] show ?thesis by (metis append.assoc)
  qed
next
  case (6 a s c)
  from 6(3) have "(s', c') = (s, c) \<or>
      (\<exists>s1 c1. (s1, c1) \<in> set (rx_match a (s, c)) \<and> length s1 < length s
         \<and> (s', c') \<in> set (rx_match (Lazy a) (s1, c1)))"
    by (subst (asm) rx_match.simps(6)) (auto split: if_splits)
  then show ?case
  proof
    assume "(s', c') = (s, c)"
    then show ?thesis by simp
  next
    assume "\<exists>s1 c1. (s1, c1) \<in> set (rx_match a (s, c)) \<and> length s1 < length s
         \<and> (s', c') \<in> set (rx_match (Lazy a) (s1, c1))"
    then obtain s1 c1 where m: "(s1, c1) \<in> set (rx_match a (s, c))" and l: "length s1 < length s"
      and n: "(s', c') \<in> set (rx_match (Lazy a) (s1, c1))" by blast
    from 6(1) [OF m] 6(2) [OF m _ l n] show ?thesis by (metis append.assoc)
  qed
next
  case (7 n a s c)
  then show ?case by auto
next
  case (8 a s c)
  then show ?case by (auto split: if_splits)
qed

lemma first_Star_zero:
  "rx_match a (s, c) = [] \<Longrightarrow> first_match (Star a) (s, c) (s, c)"
  unfolding first_match_def by (subst rx_match.simps(5)) simp

lemma first_Star_one:
  assumes "first_match a (s, c) (s', c')" "length s' < length s" "first_match (Star a) (s', c') y"
  shows "first_match (Star a) (s, c) y"
proof -
  from assms(1) obtain ms where m: "rx_match a (s, c) = (s', c') # ms"
    unfolding first_match_def by blast
  from assms(3) obtain ys where y: "rx_match (Star a) (s', c') = y # ys"
    unfolding first_match_def by blast
  show ?thesis
    unfolding first_match_def
    by (subst rx_match.simps(5)) (simp add: m y assms(2))
qed

lemma first_spaces_newline:
  assumes "stops is_space x" "first_match r (x, c) y"
  shows "first_match (Seq (Star (Cls is_space)) (Seq (Lit [CHR 0x0A]) r)) (CHR 0x0A # x, c) y"
proof -
  have sp: "is_space (CHR 0x0A)" by (simp add: is_space_def)
  have st: "rx_match (Star (Cls is_space)) (x, c) = [(x, c)]"
    using assms(1) by (cases x) (simp_all add: stops_def rx_match_Star_Cls_Cons)
  have l0: "rx_match (Lit [CHR 0x0A]) (x, c) = []"
    using assms(1) sp by (cases x) (auto simp: stops_def)
  from assms(2) obtain ys where y: "rx_match r (x, c) = y # ys"
    unfolding first_match_def by blast
  have A: "rx_match (Star (Cls is_space)) (CHR 0x0A # x, c) = [(x, c), (CHR 0x0A # x, c)]"
    using sp st by (simp add: rx_match_Star_Cls_Cons)
  have B1: "rx_match (Seq (Lit [CHR 0x0A]) r) (x, c) = []"
    by (subst rx_match.simps(3)) (simp only: l0, simp)
  have B2: "rx_match (Seq (Lit [CHR 0x0A]) r) (CHR 0x0A # x, c) = y # ys"
    by (simp add: y)
  show ?thesis
    unfolding first_match_def
    by (subst rx_match.simps(3))
       (simp only: A list.map concat.simps B1 B2 append.simps append_Nil2, blast)
qed

lemma word_not_space: "is_word x \<Longrightarrow> \<not> is_space x"
  by (auto simp: is_word_def is_space_def)

lemma prefix_char_not_space: "is_prefix_char x \<Longrightarrow> \<not> is_space x"
  by (auto simp: is_prefix_char_def is_word_def is_space_def)

lemma stops_append:
  "u \<noteq> [] \<Longrightarrow> \<not> p (hd u) \<Longrightarrow> stops p (u @ t)"
  by (cases u) (auto simp: stops_def)

lemma stops_Cons: "\<not> p x \<Longrightarrow> stops p (x # t)"
  by (simp add: stops_def)

lemma export_decl_first:
  assumes "word_name name" "stops is_word t"
  shows "first_match (export_decl k) (''export const '' @ name @ t, c) (t, c(k \<mapsto> name))"
proof -
  from assms(1) have ne: "name \<noteq> []" and w: "list_all is_word name"
    by (simp_all add: word_name_def)
  have hw: "is_word (hd name)" using ne w by (cases name) auto
  have 1: "first_match (Lit ''export'') (''export const '' @ name @ t, c) ('' const '' @ name @ t, c)"
    using first_Lit [of "''export''" "'' const '' @ name @ t" c] by simp
  have "stops is_space (''const '' @ name @ t)"
    by (simp add: stops_def is_space_def)
  from first_Plus_Cls [of is_space "'' ''" "''const '' @ name @ t" c, OF _ _ this]
  have 2: "first_match (Plus (Cls is_space)) ('' const '' @ name @ t, c) (''const '' @ name @ t, c)"
    by (simp add: is_space_def)
  have 3: "first_match (Alt (Lit ''const'') (Lit ''function'')) (''const '' @ name @ t, c)
             ('' '' @ name @ t, c)"
    using first_Alt_left [OF first_Lit [of "''const''" "'' '' @ name @ t" c]] by simp
  have "stops is_space (name @ t)"
    using ne hw by (intro stops_append) (auto dest: word_not_space)
  from first_Plus_Cls [of is_space "'' ''" "name @ t" c, OF _ _ this]
  have 4: "first_match (Plus (Cls is_space)) ('' '' @ name @ t, c) (name @ t, c)"
    by (simp add: is_space_def)
  have "first_match (Grp k (Plus (Cls is_word))) (name @ t, c)
          (t, c(k \<mapsto> take (length (name @ t) - length t) (name @ t)))"
    by (rule first_Grp [OF first_Plus_Cls [OF w ne assms(2)]])
  then have 5: "first_match (Grp k (Plus (Cls is_word))) (name @ t, c) (t, c(k \<mapsto> name))"
    by simp
  show ?thesis
    unfolding export_decl_def
    by (rule first_Seq [OF 1 first_Seq [OF 2 first_Seq [OF 3 first_Seq [OF 4 5]]]])
qed

lemma comments_first:
  assumes "is_comment cm" "take 1 x = ''e''"
  shows "first_match (Star comment_line) (cm @ x, c) (x, c)"
proof -
  obtain x' where x: "x = CHR ''e'' # x'"
    using assms(2) by (cases x) auto
  have z: "rx_match comment_line (x, c) = []"
    unfolding x comment_line_def by simp
  have zero: "first_match (Star comment_line) (x, c) (x, c)"
    by (rule first_Star_zero [OF z])
  from assms(1) consider "cm = []" | l where "cm = ''//'' @ l @ [CHR 0x0A]" "CHR 0x0A \<notin> set l"
    unfolding is_comment_def by blast
  then show ?thesis
  proof cases
    case 1
    then show ?thesis using zero by simp
  next
    case 2
    have 1: "first_match (Lit ''//'') (cm @ x, c) (l @ CHR 0x0A # x, c)"
      using first_Lit [of "''//''" "l @ CHR 0x0A # x" c] 2(1) by simp
    have "list_all (\<lambda>c. c \<noteq> CHR 0x0A) l" using 2(2) by (auto simp: list_all_iff)
    from first_Star_Cls [OF this, of "CHR 0x0A # x" c]
    have 3: "first_match (Star (Cls (\<lambda>c. c \<noteq> CHR 0x0A))) (l @ CHR 0x0A # x, c) (CHR 0x0A # x, c)"
      by (simp add: stops_def)
    have 4: "first_match (Lit [CHR 0x0A]) (CHR 0x0A # x, c) (x, c)"
      using first_Lit [of "[CHR 0x0A]" x c] by simp
    have "stops is_space x" unfolding x by (simp add: stops_def is_space_def)
    from first_Star_Cls [of is_space "[]" x c, OF _ this]
    have 5: "first_match (Star (Cls is_space)) (x, c) (x, c)" by simp
    have one: "first_match comment_line (cm @ x, c) (x, c)"
      unfolding comment_line_def
      by (rule first_Seq [OF 1 first_Seq [OF 3 first_Seq [OF 4 5]]])
    have len: "length x < length (cm @ x)" using 2(1) by simp
    show ?thesis by (rule first_Star_one [OF one len zero])
  qed
qed

lemma id_group_first:
  assumes "icon_parts icon p n" "stops is_name_char t"
  shows "first_match id_group (icon @ t, c) (t, c(1 \<mapsto> icon))"
proof -
  from assms(1) have i: "icon = p @ '':'' @ n" and p: "p \<noteq> []" "list_all is_prefix_char p"
    and n: "n \<noteq> []" "list_all is_name_char n"
    by (simp_all add: icon_parts_def)
  have "stops is_prefix_char ('':'' @ n @ t)"
    by (simp add: stops_def is_prefix_char_def is_word_def)
  from first_Plus_Cls [OF p(2) p(1) this, of c]
  have 1: "first_match (Plus (Cls is_prefix_char)) (icon @ t, c) ('':'' @ n @ t, c)"
    using i by simp
  have 2: "first_match (Lit '':'') ('':'' @ n @ t, c) (n @ t, c)"
    by (rule first_Lit)
  have 3: "first_match (Plus (Cls is_name_char)) (n @ t, c) (t, c)"
    by (rule first_Plus_Cls [OF n(2) n(1) assms(2)])
  have "first_match (Grp 1 (Seq (Plus (Cls is_prefix_char)) (Seq (Lit '':'') (Plus (Cls is_name_char)))))
          (icon @ t, c) (t, c(1 \<mapsto> take (length (icon @ t) - length t) (icon @ t)))"
    by (rule first_Grp [OF first_Seq [OF 1 first_Seq [OF 2 3]]])
  then show ?thesis unfolding id_group_def by simp
qed

lemma iconPattern_first:
  assumes "icon_parts icon p n" "word_name name" "stops is_word t" "is_comment cm"
  shows "first_match iconPattern
           (''// '' @ icon @ [CHR 0x0A] @ cm @ ''export const '' @ name @ t, Map.empty)
           (t, [1 \<mapsto> icon, 2 \<mapsto> name])"
proof -
  let ?x = "''export const '' @ name @ t"
  let ?c = "[1 \<mapsto> icon]"
  have hp: "is_prefix_char (hd icon)" "icon \<noteq> []"
    using assms(1) by (cases p; simp add: icon_parts_def)+
  have 1: "first_match (Lit ''//'') (''// '' @ icon @ [CHR 0x0A] @ cm @ ?x, Map.empty)
            ('' '' @ icon @ [CHR 0x0A] @ cm @ ?x, Map.empty)"
    using first_Lit [of "''//''" "'' '' @ icon @ [CHR 0x0A] @ cm @ ?x" Map.empty] by simp
  have "stops is_space (icon @ [CHR 0x0A] @ cm @ ?x)"
    using hp by (intro stops_append) (auto dest: prefix_char_not_space)
  from first_Star_Cls [of is_space "'' ''" _ Map.empty, OF _ this]
  have 2: "first_match (Star (Cls is_space)) ('' '' @ icon @ [CHR 0x0A] @ cm @ ?x, Map.empty)
            (icon @ [CHR 0x0A] @ cm @ ?x, Map.empty)"
    by (simp add: is_space_def)
  have "stops is_name_char ([CHR 0x0A] @ cm @ ?x)"
    by (simp add: stops_def is_name_char_def is_word_def is_digit_def)
  from id_group_first [OF assms(1) this, of Map.empty]
  have 3: "first_match id_group (icon @ [CHR 0x0A] @ cm @ ?x, Map.empty) (CHR 0x0A # cm @ ?x, ?c)"
    by simp
  have e: "take 1 ?x = ''e''" by simp
  have sx: "stops is_space (cm @ ?x)"
    using assms(4) by (auto simp: is_comment_def stops_def is_space_def)
  from first_Star_Cls [of is_space "[]" "cm @ ?x" ?c, OF _ sx]
  have 6: "first_match (Star (Cls is_space)) (cm @ ?x, ?c) (cm @ ?x, ?c)" by simp
  have 7: "first_match (Star comment_line) (cm @ ?x, ?c) (?x, ?c)"
    by (rule comments_first [OF assms(4) e])
  have 8: "first_match (export_decl 2) (?x, ?c) (t, [1 \<mapsto> icon, 2 \<mapsto> name])"
    by (rule export_decl_first [OF assms(2,3)])
  have r: "first_match (Seq (Star (Cls is_space)) (Seq (Star comment_line) (export_decl 2)))
            (cm @ ?x, ?c) (t, [1 \<mapsto> icon, 2 \<mapsto> name])"
    by (rule first_Seq [OF 6 first_Seq [OF 7 8]])
  have 45: "first_match (Seq (Star (Cls is_space)) (Seq (Lit [CHR 0x0A])
              (Seq (Star (Cls is_space)) (Seq (Star comment_line) (export_decl 2)))))
            (CHR 0x0A # cm @ ?x, ?c) (t, [1 \<mapsto> icon, 2 \<mapsto> name])"
    by (rule first_spaces_newline [OF sx r])
  show ?thesis
    unfolding iconPattern_def
    by (rule first_Seq [OF 1 first_Seq [OF 2 first_Seq [OF 3 45]]])
qed

subsection \<open>Characters of the generated code\<close>

lemma rx_replace_all_chars:
  "CHR ''$'' \<notin> set template \<Longrightarrow>
   set (rx_replace_all r m template pre s) \<subseteq> set s \<union> set template"
proof (induction r m template pre s rule: rx_replace_all.induct)
  case (1 r m template pre s)
  note plain = substitute_plain [OF 1(4)]
  show ?case
  proof (cases "rx_match r (s, Map.empty)")
    case Nil
    show ?thesis
    proof (cases s)
      case Nil
      then show ?thesis using \<open>rx_match r (s, Map.empty) = []\<close>
        by (subst rx_replace_all.simps) simp
    next
      case (Cons x xs)
      then show ?thesis using \<open>rx_match r (s, Map.empty) = []\<close> 1(1) [OF Nil Cons 1(4)]
        by (subst rx_replace_all.simps) auto
    qed
  next
    case (Cons y ys)
    obtain s' c where y: "y = (s', c)" by (cases y)
    have "(s', c) \<in> set (rx_match r (s, Map.empty))" using Cons y by simp
    from rx_match_suffix [OF this] obtain w where w: "s = w @ s'" by blast
    show ?thesis
    proof (cases "length s' < length s")
      case True
      have "set (rx_replace_all r m template (pre @ take (length s - length s') s) s')
              \<subseteq> set s' \<union> set template"
        by (rule 1(2) [OF Cons y [symmetric] True 1(4)])
      then show ?thesis using Cons y True w
        by (subst rx_replace_all.simps) (auto simp: plain)
    next
      case False
      show ?thesis
      proof (cases s)
        case Nil
        then show ?thesis using Cons y False
          by (subst rx_replace_all.simps) (auto simp: plain)
      next
        case (Cons x xs)
        have "set (rx_replace_all r m template (pre @ [x]) xs) \<subseteq> set xs \<union> set template"
          by (rule 1(3) [OF \<open>rx_match r (s, Map.empty) = y # ys\<close> y [symmetric] False Cons 1(4)])
        then show ?thesis using \<open>rx_match r (s, Map.empty) = y # ys\<close> y False Cons
          by (subst rx_replace_all.simps) (auto simp: plain)
      qed
    qed
  qed
qed

lemma replace_all_keeps_out:
  "x \<notin> set s \<Longrightarrow> x \<notin> set template \<Longrightarrow> CHR ''$'' \<notin> set template \<Longrightarrow>
   x \<notin> set (replace_all r m template s)"
  unfolding replace_all_def using rx_replace_all_chars [of template r m "[]" s] by auto

lemma trim_keeps_out: "x \<notin> set s \<Longrightarrow> x \<notin> set (trim s)"
  unfolding trim_def trimEnd_def by (metis set_dropWhileD set_rev)

lemma str_replace_keeps_out:
  assumes "x \<notin> set s" "\<And>b a. substitute 0 pat Map.empty b a template = template" "x \<notin> set template"
  shows "x \<notin> set (str_replace pat template s)"
proof (cases "find_sub pat s")
  case None
  then show ?thesis using assms(1) by (simp add: str_replace_def)
next
  case (Some ba)
  obtain b a where ba: "ba = (b, a)" by (cases ba)
  from find_sub_Some [OF Some [unfolded ba]] have "s = b @ pat @ a" .
  then have "x \<notin> set b" "x \<notin> set a" using assms(1) by auto
  then show ?thesis using Some ba assms(2,3) by (simp add: str_replace_def)
qed

lemma cleanSvg_keeps_out: "x \<notin> set svg \<Longrightarrow> x \<notin> set (cleanSvg svg)"
  unfolding cleanSvg_def by (intro trim_keeps_out replace_all_keeps_out) simp_all

lemma reactSvg_keeps_out: "plain_char x \<Longrightarrow> x \<notin> set s \<Longrightarrow> x \<notin> set (reactSvg s)"
  unfolding reactSvg_def plain_char_def by (intro replace_all_keeps_out) auto

lemma escape_backticks_keeps_out: "plain_char x \<Longrightarrow> x \<notin> set s \<Longrightarrow> x \<notin> set (escape_backticks s)"
  unfolding escape_backticks_def plain_char_def by (intro replace_all_keeps_out) auto

lemma calm_no_slash: "CHR ''/'' \<notin> set a \<Longrightarrow> calm a"
  by (simp add: calm_def quiet_no_slash)

lemma calm_append: "calm a \<Longrightarrow> calm b \<Longrightarrow> calm (a @ b)"
  by (simp add: calm_def quiet_append)

lemma calm_markup:
  assumes "CHR 0x0A \<notin> set m" "blocker b" "2 \<le> length b" "calm b"
  shows "calm (m @ b)"
proof -
  have "blocker (b @ z)" for z
    using assms(2,3) by (simp add: blocker_def)
  then show ?thesis
    using assms(1,4) by (simp add: calm_def quiet_append quiet_markup)
qed

lemma valid_icon_id_parts:
  assumes "valid_icon_id icon"
  shows "\<exists>p n. icon_parts icon p n"
proof -
  let ?p = "takeWhile is_prefix_char icon"
  from assms obtain n where d: "dropWhile is_prefix_char icon = CHR '':'' # n"
    and p: "?p \<noteq> []" and n: "n \<noteq> []" "list_all is_name_char n"
    by (auto simp: valid_icon_id_def split: list.splits)
  have "icon = ?p @ '':'' @ n"
    using takeWhile_dropWhile_id [of is_prefix_char icon] d by simp
  moreover have "list_all is_prefix_char ?p"
    by (simp add: list_all_iff) (meson set_takeWhileD)
  ultimately have "icon_parts icon ?p n"
    using p n by (simp add: icon_parts_def)
  then show ?thesis by blast
qed

lemma icon_parts_chars:
  assumes "icon_parts icon p n"
  shows "CHR ''!'' \<notin> set icon" "CHR 0x0A \<notin> set icon"
proof -
  have a: "\<not> is_prefix_char (CHR ''!'')" "\<not> is_name_char (CHR ''!'')"
    "\<not> is_prefix_char (CHR 0x0A)" "\<not> is_name_char (CHR 0x0A)"
    by (simp_all add: is_prefix_char_def is_name_char_def is_word_def is_digit_def)
  from assms have "icon = p @ '':'' @ n" "list_all is_prefix_char p" "list_all is_name_char n"
    by (simp_all add: icon_parts_def)
  then show "CHR ''!'' \<notin> set icon" "CHR 0x0A \<notin> set icon"
    using a by (auto simp: list_all_iff)
qed

lemma word_name_chars:
  assumes "word_name name"
  shows "CHR ''!'' \<notin> set name" "CHR 0x0A \<notin> set name" "CHR ''/'' \<notin> set name"
proof -
  have a: "\<not> is_word (CHR ''!'')" "\<not> is_word (CHR 0x0A)" "\<not> is_word (CHR ''/'')"
    by (simp_all add: is_word_def)
  from assms have "list_all is_word name" by (simp add: word_name_def)
  then show "CHR ''!'' \<notin> set name" "CHR 0x0A \<notin> set name" "CHR ''/'' \<notin> set name"
    using a by (auto simp: list_all_iff)
qed

lemma shape_react:
  assumes "word_name name" "CHR 0x0A \<notin> set svg"
  shows "block_shape icon name (generateReactComponent name svg icon)"
proof -
  let ?m = "str_replace ''<svg'' ''<svg {...props}'' (reactSvg svg)"
  let ?a1 = \<open>'' = (props: React.SVGProps<SVGSVGElement>) => ('' @ [CHR 0x0A] @ ''  ''\<close>
  let ?a2 = \<open>[CHR 0x0A] @ '');''\<close>
  let ?t = "?a1 @ ?m @ ?a2"
  have m: "CHR 0x0A \<notin> set ?m"
    using assms(2)
    by (intro str_replace_keeps_out reactSvg_keeps_out template_props) (simp_all add: plain_char_def)
  have "calm ?a2" by (rule calm_no_slash) simp
  then have "calm (?m @ ?a2)"
    by (intro calm_markup [OF m]) (simp_all add: blocker_def)
  moreover have "calm ?a1" by (rule calm_no_slash) simp
  ultimately have c: "calm ?t" by (rule calm_append [rotated])
  have e: "generateReactComponent name svg icon =
      ''// '' @ icon @ [CHR 0x0A] @ [] @ ''export const '' @ name @ ?t"
    by (simp add: generateReactComponent_def)
  have "is_comment []" by (simp add: is_comment_def)
  moreover have "stops is_word ?t" by (simp add: stops_def is_word_def)
  moreover have "?t \<noteq> []" "last ?t = CHR '';''" by simp_all
  ultimately show ?thesis
    unfolding block_shape_def using c e by blast
qed

lemma shape_solid:
  assumes "word_name name" "CHR 0x0A \<notin> set svg"
  shows "block_shape icon name (generateSolidComponent name svg icon)"
proof -
  let ?m = "str_replace ''<svg'' ''<svg {...props}'' svg"
  let ?a1 = \<open>'' = (props: JSX.IntrinsicElements["svg"]) => ('' @ [CHR 0x0A] @ ''  ''\<close>
  let ?a2 = \<open>[CHR 0x0A] @ '');''\<close>
  let ?t = "?a1 @ ?m @ ?a2"
  have m: "CHR 0x0A \<notin> set ?m"
    using assms(2) by (intro str_replace_keeps_out template_props) simp_all
  have "calm ?a2" by (rule calm_no_slash) simp
  then have "calm (?m @ ?a2)"
    by (intro calm_markup [OF m]) (simp_all add: blocker_def)
  moreover have "calm ?a1" by (rule calm_no_slash) simp
  ultimately have c: "calm ?t" by (rule calm_append [rotated])
  have e: "generateSolidComponent name svg icon =
      ''// '' @ icon @ [CHR 0x0A] @ [] @ ''export const '' @ name @ ?t"
    by (simp add: generateSolidComponent_def)
  have "is_comment []" by (simp add: is_comment_def)
  moreover have "stops is_word ?t" by (simp add: stops_def is_word_def)
  moreover have "?t \<noteq> []" "last ?t = CHR '';''" by simp_all
  ultimately show ?thesis
    unfolding block_shape_def using c e by blast
qed

lemma shape_vue:
  assumes "word_name name" "CHR 0x0A \<notin> set svg"
  shows "block_shape icon name (generateVueComponent name svg icon)"
proof -
  let ?m = \<open>str_replace ''<svg'' ''<svg v-bind="$attrs"'' (escape_backticks svg)\<close>
  let ?a1 = \<open>'' = {'' @ [CHR 0x0A] @ ''  name: "'' @ name @ ''",'' @ [CHR 0x0A]
      @ ''  inheritAttrs: false,'' @ [CHR 0x0A] @ ''  template: `''\<close>
  let ?a2 = \<open>''`,'' @ [CHR 0x0A] @ ''};''\<close>
  let ?t = "?a1 @ ?m @ ?a2"
  have m: "CHR 0x0A \<notin> set ?m"
    using assms(2)
    by (intro str_replace_keeps_out escape_backticks_keeps_out template_attrs)
       (simp_all add: plain_char_def)
  have "calm ?a2" by (rule calm_no_slash) simp
  then have "calm (?m @ ?a2)"
    by (intro calm_markup [OF m]) (simp_all add: blocker_def)
  moreover have "calm ?a1"
    using word_name_chars(3) [OF assms(1)] by (intro calm_no_slash) simp
  ultimately have c: "calm ?t" by (rule calm_append [rotated])
  have e: "generateVueComponent name svg icon =
      ''// '' @ icon @ [CHR 0x0A] @ [] @ ''export const '' @ name @ ?t"
    by (simp add: generateVueComponent_def)
  have "is_comment []" by (simp add: is_comment_def)
  moreover have "stops is_word ?t" by (simp add: stops_def is_word_def)
  moreover have "?t \<noteq> []" "last ?t = CHR '';''" by simp_all
  ultimately show ?thesis
    unfolding block_shape_def using c e by blast
qed

lemma shape_svg:
  assumes "word_name name" "CHR 0x0A \<notin> set svg"
  shows "block_shape icon name (generateSvgExport name svg icon)"
proof -
  let ?a1 = \<open>'' = `''\<close>
  let ?a2 = \<open>''`;''\<close>
  let ?t = "?a1 @ svg @ ?a2"
  have "calm ?a2" by (rule calm_no_slash) simp
  then have "calm (svg @ ?a2)"
    by (intro calm_markup [OF assms(2)]) (simp_all add: blocker_def)
  moreover have "calm ?a1" by (rule calm_no_slash) simp
  ultimately have c: "calm ?t" by (rule calm_append [rotated])
  have e: "generateSvgExport name svg icon =
      ''// '' @ icon @ [CHR 0x0A] @ [] @ ''export const '' @ name @ ?t"
    by (simp add: generateSvgExport_def)
  have "is_comment []" by (simp add: is_comment_def)
  moreover have "stops is_word ?t" by (simp add: stops_def is_word_def)
  moreover have "?t \<noteq> []" "last ?t = CHR '';''" by simp_all
  ultimately show ?thesis
    unfolding block_shape_def using c e by blast
qed

lemma shape_svelte:
  assumes "word_name name" "CHR 0x0A \<notin> set svg"
  shows "block_shape icon name (generateSvelteComponent name svg icon)"
proof -
  let ?l = \<open>'' Use with: {@html '' @ name @ ''} or {@html '' @ name @ ''WithClass("my-class")}''\<close>
  let ?cm = "''//'' @ ?l @ [CHR 0x0A]"
  let ?m1 = "escape_backticks svg"
  let ?m2 = \<open>str_replace ''<svg'' (''<svg class="'' @ ''${className}"'') (escape_backticks svg)\<close>
  let ?a1 = \<open>'' = `''\<close>
  let ?a2 = \<open>''`;'' @ [CHR 0x0A] @ ''export const '' @ name @ ''WithClass = (className: string) => `''\<close>
  let ?a3 = \<open>''`;''\<close>
  let ?t = "?a1 @ ?m1 @ ?a2 @ ?m2 @ ?a3"
  have n: "CHR 0x0A \<notin> set name" "CHR ''/'' \<notin> set name"
    using word_name_chars [OF assms(1)] by simp_all
  have m1: "CHR 0x0A \<notin> set ?m1"
    using assms(2) by (intro escape_backticks_keeps_out) (simp_all add: plain_char_def)
  have m2: "CHR 0x0A \<notin> set ?m2"
    using assms(2)
    by (intro str_replace_keeps_out escape_backticks_keeps_out template_class)
       (simp_all add: plain_char_def)
  have "calm ?a3" by (rule calm_no_slash) simp
  then have "calm (?m2 @ ?a3)"
    by (intro calm_markup [OF m2]) (simp_all add: blocker_def)
  moreover have a2: "calm ?a2" using n by (intro calm_no_slash) simp
  ultimately have "calm (?a2 @ ?m2 @ ?a3)" by (rule calm_append [rotated])
  then have "calm (?m1 @ ?a2 @ ?m2 @ ?a3)"
    by (intro calm_markup [OF m1]) (simp_all add: blocker_def)
  moreover have "calm ?a1" by (rule calm_no_slash) simp
  ultimately have c: "calm ?t" by (rule calm_append [rotated])
  have e: "generateSvelteComponent name svg icon =
      ''// '' @ icon @ [CHR 0x0A] @ ?cm @ ''export const '' @ name @ ?t"
    by (simp add: generateSvelteComponent_def)
  have "is_comment ?cm"
    unfolding is_comment_def using n by auto
  moreover have "stops is_word ?t" by (simp add: stops_def is_word_def)
  moreover have "?t \<noteq> []" "last ?t = CHR '';''" by simp_all
  ultimately show ?thesis
    unfolding block_shape_def using c e by blast
qed

lemma block_of_shape:
  assumes "well_formed req"
  shows "block_shape (req_icon req) (request_name req) (block_of req)"
proof -
  from assms have w: "word_name (request_name req)" and "plain_markup (req_svg req)"
    by (simp_all add: well_formed_def)
  then have n: "CHR 0x0A \<notin> set (cleanSvg (req_svg req))"
    by (intro cleanSvg_keeps_out) (simp add: plain_markup_def)
  show ?thesis
    unfolding block_of_def generateIconComponent_def
    by (cases "req_framework req")
       (simp_all add: shape_react [OF w n] shape_vue [OF w n] shape_svelte [OF w n]
          shape_solid [OF w n] shape_svg [OF w n])
qed

lemma cleanSvg_plain:
  "plain_markup svg \<Longrightarrow> plain_char x \<Longrightarrow> x \<notin> set (cleanSvg svg)"
  by (intro cleanSvg_keeps_out) (auto simp: plain_markup_def plain_char_def)

lemma block_of_no_bang:
  assumes "well_formed req"
  shows "CHR ''!'' \<notin> set (block_of req)"
proof -
  from assms have v: "valid_icon_id (req_icon req)" and w: "word_name (request_name req)"
    and p: "plain_markup (req_svg req)"
    by (simp_all add: well_formed_def)
  from valid_icon_id_parts [OF v] icon_parts_chars(1)
  have i: "CHR ''!'' \<notin> set (req_icon req)" by blast
  note n = word_name_chars(1) [OF w]
  have pc: "plain_char (CHR ''!'')" by (simp add: plain_char_def)
  note c = cleanSvg_plain [OF p pc]
  have r: "CHR ''!'' \<notin> set (str_replace ''<svg'' ''<svg {...props}'' (reactSvg (cleanSvg (req_svg req))))"
    using c pc by (intro str_replace_keeps_out reactSvg_keeps_out template_props) simp_all
  have s: "CHR ''!'' \<notin> set (str_replace ''<svg'' ''<svg {...props}'' (cleanSvg (req_svg req)))"
    using c by (intro str_replace_keeps_out template_props) simp_all
  have e: "CHR ''!'' \<notin> set (escape_backticks (cleanSvg (req_svg req)))"
    using c pc by (intro escape_backticks_keeps_out) simp_all
  have vu: \<open>CHR ''!'' \<notin> set (str_replace ''<svg'' ''<svg v-bind="$attrs"''
      (escape_backticks (cleanSvg (req_svg req))))\<close>
    using e by (intro str_replace_keeps_out template_attrs) simp_all
  have sv: \<open>CHR ''!'' \<notin> set (str_replace ''<svg'' (''<svg class="'' @ ''${className}"'')
      (escape_backticks (cleanSvg (req_svg req))))\<close>
    using e by (intro str_replace_keeps_out template_class) simp_all
  show ?thesis
    unfolding block_of_def generateIconComponent_def
    using i n c r s e vu sv
    by (cases "req_framework req")
       (simp_all add: generateReactComponent_def generateVueComponent_def
          generateSvelteComponent_def generateSolidComponent_def generateSvgExport_def)
qed

subsection \<open>The file headers\<close>

lemma header_text_eq:
  \<open>header_text React =
     ''// Auto-generated icons file - managed by better-icons'' @ [CHR 0x0A]
     @ ''// Do not edit manually - use sync_icon to add new icons'' @ [CHR 0x0A, CHR 0x0A]
     @ ''import type React from "react";''\<close>
  \<open>header_text Solid =
     ''// Auto-generated icons file - managed by better-icons'' @ [CHR 0x0A]
     @ ''// Do not edit manually - use sync_icon to add new icons'' @ [CHR 0x0A, CHR 0x0A]
     @ ''import type { JSX } from "solid-js";''\<close>
  \<open>header_text Vue =
     ''// Auto-generated icons file - managed by better-icons'' @ [CHR 0x0A]
     @ ''// Do not edit manually - use sync_icon to add new icons''\<close>
  \<open>header_text Svelte =
     ''// Auto-generated icons file - managed by better-icons'' @ [CHR 0x0A]
     @ ''// Do not edit manually - use sync_icon to add new icons'' @ [CHR 0x0A]
     @ ''// Usage: {@html IconName} or {@html IconNameWithClass("my-class")}''\<close>
  \<open>header_text Svg =
     ''// Auto-generated icons file - managed by better-icons'' @ [CHR 0x0A]
     @ ''// Do not edit manually - use sync_icon to add new icons''\<close>
  unfolding header_text_def by code_simp+

lemma calm_line:
  assumes "\<And>z. rx_match iconPattern (''//'' @ r @ z, Map.empty) = []" "CHR ''/'' \<notin> set r" "r \<noteq> []"
  shows "calm (''//'' @ r)"
proof -
  obtain x r' where r: "r = x # r'" using assms(3) by (cases r) auto
  have x: "x \<noteq> CHR ''/''" using assms(2) r by auto
  have "quiet (''//'' @ r) z" for z
    using assms(1) [of z] quiet_no_slash [OF assms(2), of z] x
    by (simp add: r iconPattern_needs_two_slashes)
  then show ?thesis by (simp add: calm_def)
qed

lemma line1_calm: "calm ''// Auto-generated icons file - managed by better-icons''"
proof -
  have "rx_match iconPattern
      (''//'' @ '' Auto-generated icons file - managed by better-icons'' @ z, Map.empty) = []" for z
    by (simp add: iconPattern_def id_group_def Plus_def rx_match_Star_Cls_Cons is_space_def
        is_prefix_char_def is_word_def)
  from calm_line [of "'' Auto-generated icons file - managed by better-icons''", OF this]
  show ?thesis by simp
qed

lemma line2_calm: "calm ''// Do not edit manually - use sync_icon to add new icons''"
proof -
  have "rx_match iconPattern
      (''//'' @ '' Do not edit manually - use sync_icon to add new icons'' @ z, Map.empty) = []" for z
    by (simp add: iconPattern_def id_group_def Plus_def rx_match_Star_Cls_Cons is_space_def
        is_prefix_char_def is_word_def)
  from calm_line [of "'' Do not edit manually - use sync_icon to add new icons''", OF this]
  show ?thesis by simp
qed

lemma line3_calm:
  \<open>calm ''// Usage: {@html IconName} or {@html IconNameWithClass("my-class")}''\<close>
proof -
  have \<open>rx_match iconPattern
      (''//'' @ '' Usage: {@html IconName} or {@html IconNameWithClass("my-class")}'' @ z, Map.empty) = []\<close> for z
    by (simp add: iconPattern_def id_group_def Plus_def rx_match_Star_Cls_Cons is_space_def
        is_prefix_char_def is_name_char_def is_word_def is_digit_def)
  from calm_line [of \<open>'' Usage: {@html IconName} or {@html IconNameWithClass("my-class")}''\<close>, OF this]
  show ?thesis by simp
qed

lemma header_calm: "calm (header_text framework)"
proof -
  have nl: "calm [CHR 0x0A]" "calm [CHR 0x0A, CHR 0x0A]" by (rule calm_no_slash, simp)+
  have i1: \<open>calm ''import type React from "react";''\<close> by (rule calm_no_slash) simp
  have i2: \<open>calm ''import type { JSX } from "solid-js";''\<close> by (rule calm_no_slash) simp
  show ?thesis
    by (cases framework)
       (simp_all only: header_text_eq,
        (intro calm_append line1_calm line2_calm line3_calm nl i1 i2)+)
qed

lemma header_props:
  "CHR ''!'' \<notin> set (header_text framework)"
  "header_text framework \<noteq> []"
  "\<not> is_space (last (header_text framework))"
  by (cases framework; simp add: header_text_eq is_space_def)+

lemma blocks_text_simps [simp]:
  "blocks_text [] = []"
  "blocks_text (r # rs) = [CHR 0x0A, CHR 0x0A] @ block_of r @ blocks_text rs"
  "blocks_text (rs @ rs') = blocks_text rs @ blocks_text rs'"
  by (simp_all add: blocks_text_def)

lemma icon_entries_block:
  assumes "well_formed req"
  shows "icon_entries (block_of req @ z) = entry_of req # icon_entries z"
proof -
  from assms have v: "valid_icon_id (req_icon req)" and w: "word_name (request_name req)"
    by (simp_all add: well_formed_def)
  from valid_icon_id_parts [OF v] obtain p n where ip: "icon_parts (req_icon req) p n" by blast
  from block_of_shape [OF assms] obtain cm t where
    b: "block_of req = ''// '' @ req_icon req @ [CHR 0x0A] @ cm @ ''export const '' @ request_name req @ t"
    and cm: "is_comment cm" and st: "stops is_word t" and c: "calm t" and t: "t \<noteq> []"
    unfolding block_shape_def by blast
  have st': "stops is_word (t @ z)"
    using st t by (cases t) (auto simp: stops_def)
  have f: "first_match iconPattern (block_of req @ z, Map.empty)
      (t @ z, [1 \<mapsto> req_icon req, 2 \<mapsto> request_name req])"
    using iconPattern_first [OF ip w st' cm] b by simp
  have i: "req_icon req \<noteq> []" using ip by (auto simp: icon_parts_def)
  have nm: "request_name req \<noteq> []" using w by (simp add: word_name_def)
  have "icon_entries (block_of req @ z) = (req_icon req, request_name req) # icon_entries (t @ z)"
    using icon_entries_hit [OF f] i nm by (simp add: cap_text_def)
  moreover have "icon_entries (t @ z) = icon_entries z"
    using c by (intro icon_entries_quiet) (simp add: calm_def)
  ultimately show ?thesis by (simp add: entry_of_def)
qed

lemma icon_entries_newline: "icon_entries (CHR 0x0A # z) = icon_entries z"
  by (rule icon_entries_skip) (simp add: iconPattern_needs_slash)

lemma icon_entries_blocks:
  "list_all well_formed rs \<Longrightarrow> icon_entries (blocks_text rs @ z) = map entry_of rs @ icon_entries z"
  by (induction rs) (simp_all add: icon_entries_newline icon_entries_block)

lemma icon_entries_render:
  assumes "list_all well_formed rs"
  shows "icon_entries (render rs) = map entry_of rs"
proof -
  have "icon_entries (render rs) = icon_entries (blocks_text rs @ [CHR 0x0A])"
    unfolding render_def using header_calm by (intro icon_entries_quiet) (simp add: calm_def)
  also have "\<dots> = map entry_of rs @ icon_entries [CHR 0x0A]"
    by (rule icon_entries_blocks [OF assms])
  finally show ?thesis by (simp add: icon_entries_newline)
qed

lemma blocks_text_no_bang:
  "list_all well_formed rs \<Longrightarrow> CHR ''!'' \<notin> set (blocks_text rs)"
  by (induction rs) (simp_all add: block_of_no_bang)

lemma vue_entries_render:
  assumes "list_all well_formed rs"
  shows "vue_entries (render rs) = []"
  using blocks_text_no_bang [OF assms] header_props(1)
  by (intro vue_entries_no_bang) (simp add: render_def)

lemma set_all_snoc: "set_all (es @ [(k, v)]) m = (set_all es m)(k \<mapsto> v)"
  by (simp add: set_all_def)

lemma set_all_dom: "k \<notin> fst ` set es \<Longrightarrow> set_all es m k = m k"
  by (induction es rule: rev_induct) (auto simp: set_all_snoc set_all_def)

lemma set_all_in: "k \<in> fst ` set es \<Longrightarrow> \<exists>v. set_all es m k = Some v \<and> (k, v) \<in> set es"
proof (induction es rule: rev_induct)
  case Nil
  then show ?case by simp
next
  case (snoc e es)
  obtain k' v' where e: "e = (k', v')" by (cases e)
  show ?case
  proof (cases "k = k'")
    case True
    then show ?thesis using e by (simp add: set_all_snoc)
  next
    case False
    with snoc.prems e have "k \<in> fst ` set es" by auto
    from snoc.IH [OF this] show ?thesis using False e by (auto simp: set_all_snoc)
  qed
qed

lemma parse_render:
  assumes "list_all well_formed rs"
  shows "parse_content (render rs) = set_all (map entry_of rs) Map.empty"
  by (simp add: parse_content_def vue_entries_render [OF assms] icon_entries_render [OF assms]
      set_all_def)

lemma parse_render_absent:
  assumes "list_all well_formed rs" "icon \<notin> req_icon ` set rs"
  shows "parse_content (render rs) icon = None"
proof -
  have "icon \<notin> fst ` set (map entry_of rs)"
    using assms(2) by (auto simp: entry_of_def)
  from set_all_dom [OF this] show ?thesis by (simp add: parse_render [OF assms(1)])
qed

lemma parse_render_present:
  assumes "list_all well_formed rs" "distinct (map req_icon rs)" "r \<in> set rs"
  shows "parse_content (render rs) (req_icon r) = Some (request_name r)"
proof -
  have "req_icon r \<in> fst ` set (map entry_of rs)"
    using assms(3) by (force simp: entry_of_def)
  from set_all_in [OF this, of Map.empty] obtain v where
    v: "set_all (map entry_of rs) Map.empty (req_icon r) = Some v"
    and m: "(req_icon r, v) \<in> set (map entry_of rs)" by blast
  from m obtain r' where r': "r' \<in> set rs" "req_icon r' = req_icon r" "v = request_name r'"
    by (auto simp: entry_of_def)
  have "r' = r"
    using assms(2,3) r'(1,2) by (meson distinct_map inj_onD)
  then show ?thesis using v r'(3) by (simp add: parse_render [OF assms(1)])
qed

lemma block_of_end:
  assumes "well_formed req"
  shows "block_of req \<noteq> []" "last (block_of req) = CHR '';''"
proof -
  from block_of_shape [OF assms] obtain cm t where
    b: "block_of req = ''// '' @ req_icon req @ [CHR 0x0A] @ cm @ ''export const '' @ request_name req @ t"
    and t: "t \<noteq> []" "last t = CHR '';''"
    unfolding block_shape_def by blast
  show "block_of req \<noteq> []" using b by simp
  show "last (block_of req) = CHR '';''" using b t by simp
qed

lemma trimEnd_newline:
  assumes "b \<noteq> []" "\<not> is_space (last b)"
  shows "trimEnd (b @ [CHR 0x0A]) = b"
proof -
  have r: "rev b = last b # rev (butlast b)"
    using assms(1) by (metis append_butlast_last_id rev_eq_Cons_iff rev_rev_ident)
  have s: "is_space (CHR 0x0A)" by (simp add: is_space_def)
  have "dropWhile is_space (rev (b @ [CHR 0x0A])) = rev b"
    using s assms(2) by (simp add: r)
  then show ?thesis by (simp add: trimEnd_def del: rev_append)
qed

lemma trimEnd_render:
  assumes "list_all well_formed rs" "rs \<noteq> []"
  shows "trimEnd (render rs) = header_text (req_framework (hd rs)) @ blocks_text rs"
proof -
  obtain rs' r where rs: "rs = rs' @ [r]"
    using assms(2) by (metis rev_exhaust)
  have w: "well_formed r" using assms(1) rs by simp
  let ?b = "header_text (req_framework (hd rs)) @ blocks_text rs"
  have "\<not> is_space (CHR '';'')" by (simp add: is_space_def)
  then have "?b \<noteq> []" "\<not> is_space (last ?b)"
    using block_of_end [OF w] by (simp_all add: rs)
  from trimEnd_newline [OF this] show ?thesis by (simp add: render_def)
qed

lemma render_snoc:
  assumes "list_all well_formed rs"
  shows "render (rs @ [req]) =
     trimEnd (if rs = [] then getFileHeader (req_framework req) else render rs)
       @ [CHR 0x0A, CHR 0x0A] @ block_of req @ [CHR 0x0A]"
proof (cases "rs = []")
  case True
  then show ?thesis by (simp add: render_def header_text_def)
next
  case False
  then have "hd (rs @ [req]) = hd rs" by simp
  then show ?thesis
    using False trimEnd_render [OF assms False] by (simp add: render_def)
qed

lemma add_request_present:
  assumes "holds fs filePath rs" "tidy rs" "r \<in> set rs" "req_icon req = req_icon r"
  shows "add_request fs filePath req =
     (Inr \<lparr>componentName = request_name r, alreadyExists = True,
           existingName = Some (request_name r)\<rparr>, fs)"
proof -
  from assms(3) have ne: "rs \<noteq> []" by auto
  from assms(2) have w: "list_all well_formed rs" and d: "distinct (map req_icon rs)"
    by (simp_all add: tidy_def)
  have n: "nodes fs filePath = Some (File (render rs))"
    using assms(1) ne by (simp add: holds_def)
  have "parseExistingIcons fs filePath (req_icon req) = Some (request_name r)"
    using parse_render_present [OF w d assms(3)] n assms(4)
    by (simp add: parseExistingIcons_def)
  then show ?thesis
    by (simp add: add_request_def addIconToFile_def Let_def)
qed

lemma add_request_absent:
  assumes "holds fs filePath rs" "tidy rs" "req_icon req \<notin> req_icon ` set rs" "can_write fs filePath"
  shows "fst (add_request fs filePath req) =
           Inr \<lparr>componentName = request_name req, alreadyExists = False, existingName = None\<rparr>"
    and "holds (snd (add_request fs filePath req)) filePath (rs @ [req])"
    and "can_write (snd (add_request fs filePath req)) filePath"
proof -
  from assms(2) have w: "list_all well_formed rs" by (simp add: tidy_def)
  have p: "parseExistingIcons fs filePath (req_icon req) = None"
  proof (cases "rs = []")
    case True
    then show ?thesis using assms(1) by (simp add: holds_def parseExistingIcons_def)
  next
    case False
    then have "nodes fs filePath = Some (File (render rs))"
      using assms(1) by (simp add: holds_def)
    then show ?thesis
      using parse_render_absent [OF w assms(3)] by (simp add: parseExistingIcons_def)
  qed
  let ?fs1 = "fs\<lparr>dir_missing := (dir_missing fs)(filePath := False)\<rparr>"
  let ?content = "render (rs @ [req])"
  have r: "add_request fs filePath req =
      (Inr \<lparr>componentName = request_name req, alreadyExists = False, existingName = None\<rparr>,
       ?fs1\<lparr>nodes := (nodes ?fs1)(filePath \<mapsto> File ?content)\<rparr>)"
  proof (cases "rs = []")
    case True
    then have "nodes fs filePath = None" using assms(1) by (simp add: holds_def)
    then show ?thesis
      using p assms(4) True render_snoc [OF w, of req]
      by (simp add: add_request_def addIconToFile_def Let_def can_write_def request_name_def
          block_of_def)
  next
    case False
    then have "nodes fs filePath = Some (File (render rs))"
      using assms(1) by (simp add: holds_def)
    then show ?thesis
      using p assms(4) False render_snoc [OF w, of req]
      by (simp add: add_request_def addIconToFile_def Let_def can_write_def request_name_def
          block_of_def)
  qed
  show "fst (add_request fs filePath req) =
           Inr \<lparr>componentName = request_name req, alreadyExists = False, existingName = None\<rparr>"
    by (simp add: r)
  show "holds (snd (add_request fs filePath req)) filePath (rs @ [req])"
    by (simp add: r holds_def)
  show "can_write (snd (add_request fs filePath req)) filePath"
    using assms(4) by (simp add: r can_write_def)
qed

lemma tidy_keep:
  "tidy rs \<Longrightarrow> well_formed req \<Longrightarrow> tidy (keep rs req)"
  by (auto simp: tidy_def keep_def)

lemma add_request_keep:
  assumes "holds fs filePath rs" "tidy rs" "can_write fs filePath"
  shows "holds (snd (add_request fs filePath req)) filePath (keep rs req)
       \<and> can_write (snd (add_request fs filePath req)) filePath"
proof (cases "req_icon req \<in> req_icon ` set rs")
  case True
  then obtain r where "r \<in> set rs" "req_icon req = req_icon r" by auto
  from add_request_present [OF assms(1,2) this] show ?thesis
    using True assms(1,3) by (simp add: keep_def)
next
  case False
  from add_request_absent(2,3) [OF assms(1,2) False assms(3)] show ?thesis
    using False by (simp add: keep_def)
qed

lemma add_all_holds:
  assumes "holds fs filePath rs" "tidy rs" "can_write fs filePath" "list_all well_formed reqs"
  shows "holds (add_all fs filePath reqs) filePath (foldl keep rs reqs)
       \<and> tidy (foldl keep rs reqs) \<and> can_write (add_all fs filePath reqs) filePath"
  using assms
proof (induction reqs arbitrary: fs rs)
  case Nil
  then show ?case by (simp add: add_all_def)
next
  case (Cons req reqs)
  from Cons.prems(4) have w: "well_formed req" and ws: "list_all well_formed reqs" by simp_all
  from add_request_keep [OF Cons.prems(1,2,3), of req]
  have h: "holds (snd (add_request fs filePath req)) filePath (keep rs req)"
    and c: "can_write (snd (add_request fs filePath req)) filePath" by simp_all
  from Cons.IH [OF h tidy_keep [OF Cons.prems(2) w] c ws]
  show ?case by (simp add: add_all_def)
qed

lemma holds_fresh: "nodes fs filePath = None \<Longrightarrow> holds fs filePath []"
  by (simp add: holds_def)

lemma tidy_Nil: "tidy []"
  by (simp add: tidy_def)

lemma run_holds:
  assumes "nodes fs0 filePath = None" "can_write fs0 filePath" "list_all well_formed reqs"
  shows "holds (add_all fs0 filePath reqs) filePath (kept reqs)"
    and "tidy (kept reqs)"
    and "can_write (add_all fs0 filePath reqs) filePath"
  using add_all_holds [OF holds_fresh [OF assms(1)] tidy_Nil assms(2,3)]
  by (simp_all add: kept_def)

lemma foldl_keep_icons:
  "req_icon ` set (foldl keep rs reqs) = req_icon ` set rs \<union> req_icon ` set reqs"
  by (induction reqs arbitrary: rs) (auto simp: keep_def)

lemma kept_icons: "req_icon ` set (kept reqs) = req_icon ` set reqs"
  by (simp add: kept_def foldl_keep_icons)

section \<open>The managed file: claims C1, C2 and C3\<close>

text \<open>
  Claim C1, as stated, at an identifier of the form \<open>prefix:name\<close> whose prefix holds a
  space.  The identifier pattern of the parser does not match the comment that the
  first call wrote, so the second call does not find the identifier: it returns
  \<open>alreadyExists = false\<close> again and appends a second block, and the file after the second
  call differs from the file after the first.
\<close>

theorem addIconToFile_appends_again:
  \<open>fst (addIconToFile empty_fs ''icons.tsx'' ''app icons:home'' ''<svg/>'' React None)
     = Inr \<lparr>componentName = ''HomeIcon'', alreadyExists = False, existingName = None\<rparr>
   \<and> fst (addIconToFile
            (snd (addIconToFile empty_fs ''icons.tsx'' ''app icons:home'' ''<svg/>'' React None))
            ''icons.tsx'' ''app icons:home'' ''<svg/>'' React None)
     = Inr \<lparr>componentName = ''HomeIcon'', alreadyExists = False, existingName = None\<rparr>
   \<and> nodes (snd (addIconToFile
            (snd (addIconToFile empty_fs ''icons.tsx'' ''app icons:home'' ''<svg/>'' React None))
            ''icons.tsx'' ''app icons:home'' ''<svg/>'' React None)) ''icons.tsx''
     \<noteq> nodes (snd (addIconToFile empty_fs ''icons.tsx'' ''app icons:home'' ''<svg/>'' React None))
          ''icons.tsx''\<close>
  by code_simp

text \<open>
  Claim C1, amended.  Take a path that holds no file, any sequence of well-formed
  requests on it none of which throws, and then any well-formed request (an identifier
  that the pattern \<open>[\w-]+:[\w\d.-]+\<close> matches as a whole, a component name of word
  characters, markup on one line without an exclamation mark; any flavour).  The call
  returns normally, and a second call with the same request returns
  \<open>alreadyExists = true\<close> with the component name that the first call returned, and
  leaves the file system as the first call left it: no mutation, and the same content
  of the file.
\<close>

theorem addIconToFile_idempotent:
  assumes "nodes fs0 filePath = None" "can_write fs0 filePath"
    and "list_all well_formed reqs" "well_formed req"
  shows "\<exists>res. fst (add_request (add_all fs0 filePath reqs) filePath req) = Inr res
     \<and> add_request (snd (add_request (add_all fs0 filePath reqs) filePath req)) filePath req =
         (Inr \<lparr>componentName = componentName res, alreadyExists = True,
               existingName = Some (componentName res)\<rparr>,
          snd (add_request (add_all fs0 filePath reqs) filePath req))"
proof -
  let ?fs = "add_all fs0 filePath reqs"
  let ?rs = "kept reqs"
  note h = run_holds [OF assms(1,2,3)]
  show ?thesis
  proof (cases "req_icon req \<in> req_icon ` set ?rs")
    case True
    then obtain r where r: "r \<in> set ?rs" "req_icon req = req_icon r" by auto
    from add_request_present [OF h(1,2) r] show ?thesis by simp
  next
    case False
    from add_request_absent [OF h(1,2) False h(3)]
    have 1: "fst (add_request ?fs filePath req) =
        Inr \<lparr>componentName = request_name req, alreadyExists = False, existingName = None\<rparr>"
      and h': "holds (snd (add_request ?fs filePath req)) filePath (?rs @ [req])"
      by simp_all
    have t: "tidy (?rs @ [req])"
      using h(2) False assms(4) by (auto simp: tidy_def)
    from add_request_present [OF h' t, of req req]
    have "add_request (snd (add_request ?fs filePath req)) filePath req =
       (Inr \<lparr>componentName = request_name req, alreadyExists = True,
             existingName = Some (request_name req)\<rparr>, snd (add_request ?fs filePath req))"
      by simp
    then show ?thesis using 1 by simp
  qed
qed

text \<open>
  The theorem at a first request on an absent file: flavour \<open>svelte\<close>, custom name
  \<open>Arrow\<close>.
\<close>

theorem addIconToFile_idempotent_witness:
  \<open>nodes empty_fs ''icons.ts'' = None
   \<and> can_write empty_fs ''icons.ts''
   \<and> list_all well_formed []
   \<and> well_formed \<lparr>req_icon = ''lucide:arrow-right'', req_svg = ''<svg viewBox="0 0 24 24"/>'',
                   req_framework = Svelte, req_name = Some ''Arrow''\<rparr>
   \<and> fst (add_request (add_all empty_fs ''icons.ts'' []) ''icons.ts''
          \<lparr>req_icon = ''lucide:arrow-right'', req_svg = ''<svg viewBox="0 0 24 24"/>'',
           req_framework = Svelte, req_name = Some ''Arrow''\<rparr>)
       = Inr \<lparr>componentName = ''Arrow'', alreadyExists = False, existingName = None\<rparr>
   \<and> add_request
         (snd (add_request (add_all empty_fs ''icons.ts'' []) ''icons.ts''
            \<lparr>req_icon = ''lucide:arrow-right'', req_svg = ''<svg viewBox="0 0 24 24"/>'',
             req_framework = Svelte, req_name = Some ''Arrow''\<rparr>))
         ''icons.ts''
         \<lparr>req_icon = ''lucide:arrow-right'', req_svg = ''<svg viewBox="0 0 24 24"/>'',
          req_framework = Svelte, req_name = Some ''Arrow''\<rparr>
       = (Inr \<lparr>componentName = ''Arrow'', alreadyExists = True, existingName = Some ''Arrow''\<rparr>,
          snd (add_request (add_all empty_fs ''icons.ts'' []) ''icons.ts''
            \<lparr>req_icon = ''lucide:arrow-right'', req_svg = ''<svg viewBox="0 0 24 24"/>'',
             req_framework = Svelte, req_name = Some ''Arrow''\<rparr>))\<close>
proof -
  let ?req = \<open>\<lparr>req_icon = ''lucide:arrow-right'', req_svg = ''<svg viewBox="0 0 24 24"/>'',
                req_framework = Svelte, req_name = Some ''Arrow''\<rparr>\<close>
  have 1: "nodes empty_fs ''icons.ts'' = None" by (simp add: empty_fs_def)
  have 2: "can_write empty_fs ''icons.ts''" by (simp add: can_write_def empty_fs_def)
  have 3: "list_all well_formed []" by simp
  have 4: "well_formed ?req" by code_simp
  have 5: "fst (add_request (add_all empty_fs ''icons.ts'' []) ''icons.ts'' ?req)
       = Inr \<lparr>componentName = ''Arrow'', alreadyExists = False, existingName = None\<rparr>"
    by code_simp
  from addIconToFile_idempotent [OF 1 2 3 4] 5
  have 6: "add_request (snd (add_request (add_all empty_fs ''icons.ts'' []) ''icons.ts'' ?req))
         ''icons.ts'' ?req
       = (Inr \<lparr>componentName = ''Arrow'', alreadyExists = True, existingName = Some ''Arrow''\<rparr>,
          snd (add_request (add_all empty_fs ''icons.ts'' []) ''icons.ts'' ?req))"
    by auto
  show ?thesis using 1 2 3 4 5 6 by blast
qed

text \<open>
  Claim C2, as stated, at an identifier of the form \<open>prefix:name\<close> whose prefix holds a
  space: the call returns \<open>alreadyExists = false\<close> and writes the block, and parsing the
  file afterwards yields a mapping without that identifier.
\<close>

theorem addIconToFile_parse_misses:
  \<open>fst (addIconToFile empty_fs ''icons.tsx'' ''app icons:home'' ''<svg/>'' React None)
     = Inr \<lparr>componentName = ''HomeIcon'', alreadyExists = False, existingName = None\<rparr>
   \<and> parseExistingIcons
        (snd (addIconToFile empty_fs ''icons.tsx'' ''app icons:home'' ''<svg/>'' React None))
        ''icons.tsx'' ''app icons:home'' = None\<close>
  by code_simp

text \<open>
  Claim C2, amended.  Take a path that holds no file, any sequence of well-formed
  requests on it none of which throws, and then a well-formed request (identifier
  matched as a whole by \<open>[\w-]+:[\w\d.-]+\<close>, component name of word characters, custom or
  derived, markup on one line without an exclamation mark; any flavour).  If the call
  returns \<open>alreadyExists = false\<close>, then \<open>parseExistingIcons\<close> on the same path afterwards
  maps the identifier to the component name that the call returned.
\<close>

theorem addIconToFile_then_parse:
  assumes "nodes fs0 filePath = None" "can_write fs0 filePath"
    and "list_all well_formed reqs" "well_formed req"
    and "fst (add_request (add_all fs0 filePath reqs) filePath req) = Inr res"
    and "\<not> alreadyExists res"
  shows "parseExistingIcons (snd (add_request (add_all fs0 filePath reqs) filePath req)) filePath
           (req_icon req) = Some (componentName res)"
proof -
  let ?fs = "add_all fs0 filePath reqs"
  let ?rs = "kept reqs"
  note h = run_holds [OF assms(1,2,3)]
  have a: "req_icon req \<notin> req_icon ` set ?rs"
  proof
    assume "req_icon req \<in> req_icon ` set ?rs"
    then obtain r where "r \<in> set ?rs" "req_icon req = req_icon r" by auto
    from add_request_present [OF h(1,2) this] assms(5,6) show False by auto
  qed
  from add_request_absent [OF h(1,2) a h(3)]
  have r: "res = \<lparr>componentName = request_name req, alreadyExists = False, existingName = None\<rparr>"
    and h': "holds (snd (add_request ?fs filePath req)) filePath (?rs @ [req])"
    using assms(5) by simp_all
  have t: "tidy (?rs @ [req])"
    using h(2) a assms(4) by (auto simp: tidy_def)
  then have w: "list_all well_formed (?rs @ [req])" and d: "distinct (map req_icon (?rs @ [req]))"
    by (simp_all add: tidy_def)
  have "nodes (snd (add_request ?fs filePath req)) filePath = Some (File (render (?rs @ [req])))"
    using h' by (simp add: holds_def)
  then show ?thesis
    using parse_render_present [OF w d, of req] r by (simp add: parseExistingIcons_def)
qed

text \<open>
  The theorem on a file that holds one \<open>react\<close> block, at a \<open>vue\<close> request for
  \<open>mdi:account-circle\<close>.
\<close>

theorem addIconToFile_then_parse_witness:
  \<open>nodes empty_fs ''icons.tsx'' = None
   \<and> can_write empty_fs ''icons.tsx''
   \<and> list_all well_formed
        [\<lparr>req_icon = ''lucide:home'', req_svg = ''<svg><path d="M3 9"/></svg>'',
          req_framework = React, req_name = None\<rparr>]
   \<and> well_formed \<lparr>req_icon = ''mdi:account-circle'', req_svg = ''<svg/>'',
                   req_framework = Vue, req_name = None\<rparr>
   \<and> fst (add_request
          (add_all empty_fs ''icons.tsx''
            [\<lparr>req_icon = ''lucide:home'', req_svg = ''<svg><path d="M3 9"/></svg>'',
              req_framework = React, req_name = None\<rparr>])
          ''icons.tsx''
          \<lparr>req_icon = ''mdi:account-circle'', req_svg = ''<svg/>'',
           req_framework = Vue, req_name = None\<rparr>)
       = Inr \<lparr>componentName = ''AccountCircleIcon'', alreadyExists = False, existingName = None\<rparr>
   \<and> parseExistingIcons
        (snd (add_request
          (add_all empty_fs ''icons.tsx''
            [\<lparr>req_icon = ''lucide:home'', req_svg = ''<svg><path d="M3 9"/></svg>'',
              req_framework = React, req_name = None\<rparr>])
          ''icons.tsx''
          \<lparr>req_icon = ''mdi:account-circle'', req_svg = ''<svg/>'',
           req_framework = Vue, req_name = None\<rparr>))
        ''icons.tsx'' ''mdi:account-circle''
       = Some ''AccountCircleIcon''\<close>
proof -
  let ?reqs = \<open>[\<lparr>req_icon = ''lucide:home'', req_svg = ''<svg><path d="M3 9"/></svg>'',
                  req_framework = React, req_name = None\<rparr>]\<close>
  let ?req = \<open>\<lparr>req_icon = ''mdi:account-circle'', req_svg = ''<svg/>'',
                req_framework = Vue, req_name = None\<rparr>\<close>
  let ?res = "\<lparr>componentName = ''AccountCircleIcon'', alreadyExists = False, existingName = None\<rparr>"
  have 1: "nodes empty_fs ''icons.tsx'' = None" by (simp add: empty_fs_def)
  have 2: "can_write empty_fs ''icons.tsx''" by (simp add: can_write_def empty_fs_def)
  have 3: "list_all well_formed ?reqs" by code_simp
  have 4: "well_formed ?req" by code_simp
  have 5: "fst (add_request (add_all empty_fs ''icons.tsx'' ?reqs) ''icons.tsx'' ?req) = Inr ?res"
    by code_simp
  have 6: "\<not> alreadyExists ?res" by simp
  from addIconToFile_then_parse [OF 1 2 3 4 5 6]
  have 7: "parseExistingIcons
        (snd (add_request (add_all empty_fs ''icons.tsx'' ?reqs) ''icons.tsx'' ?req))
        ''icons.tsx'' ''mdi:account-circle'' = Some ''AccountCircleIcon''"
    by simp
  show ?thesis using 1 2 3 4 5 7 by blast
qed

text \<open>
  Claim C3, as stated, at two successful calls from an absent file, for \<open>lucide:home\<close>
  and \<open>mdi:home\<close>: both derive the component name \<open>HomeIcon\<close>, both return
  \<open>alreadyExists = false\<close>, and the file holds two blocks that declare \<open>HomeIcon\<close>.
\<close>

theorem addIconToFile_same_component_name:
  \<open>fst (addIconToFile empty_fs ''icons.tsx'' ''lucide:home'' ''<svg/>'' React None)
     = Inr \<lparr>componentName = ''HomeIcon'', alreadyExists = False, existingName = None\<rparr>
   \<and> fst (addIconToFile
            (snd (addIconToFile empty_fs ''icons.tsx'' ''lucide:home'' ''<svg/>'' React None))
            ''icons.tsx'' ''mdi:home'' ''<svg/>'' React None)
     = Inr \<lparr>componentName = ''HomeIcon'', alreadyExists = False, existingName = None\<rparr>
   \<and> file_entries (snd (addIconToFile
            (snd (addIconToFile empty_fs ''icons.tsx'' ''lucide:home'' ''<svg/>'' React None))
            ''icons.tsx'' ''mdi:home'' ''<svg/>'' React None)) ''icons.tsx''
     = [(''lucide:home'', ''HomeIcon''), (''mdi:home'', ''HomeIcon'')]
   \<and> \<not> distinct (map snd (file_entries (snd (addIconToFile
            (snd (addIconToFile empty_fs ''icons.tsx'' ''lucide:home'' ''<svg/>'' React None))
            ''icons.tsx'' ''mdi:home'' ''<svg/>'' React None)) ''icons.tsx''))\<close>
  by code_simp

text \<open>
  Claim C3, amended.  In every file produced from an absent file by a sequence of
  well-formed requests none of which throws, no two blocks carry the same identifier:
  the blocks that the parser finds are those of the first request for each identifier,
  in the order of the requests, each with the component name that request gave, and the
  file is the header followed by exactly these blocks.  Component names are not kept
  apart: two identifiers can be given the same one.
\<close>

theorem managed_file_unique_ids:
  assumes "nodes fs0 filePath = None" "can_write fs0 filePath" "list_all well_formed reqs"
  shows "distinct (map fst (file_entries (add_all fs0 filePath reqs) filePath))
     \<and> fst ` set (file_entries (add_all fs0 filePath reqs) filePath) = req_icon ` set reqs
     \<and> file_entries (add_all fs0 filePath reqs) filePath = map entry_of (kept reqs)
     \<and> (reqs \<noteq> [] \<longrightarrow>
          nodes (add_all fs0 filePath reqs) filePath = Some (File (render (kept reqs))))"
proof -
  let ?rs = "kept reqs"
  note h = run_holds [OF assms]
  from h(2) have w: "list_all well_formed ?rs" and d: "distinct (map req_icon ?rs)"
    by (simp_all add: tidy_def)
  have e: "file_entries (add_all fs0 filePath reqs) filePath = map entry_of ?rs"
    using h(1) icon_entries_render [OF w] by (simp add: holds_def file_entries_def)
  have f: "map fst (map entry_of ?rs) = map req_icon ?rs"
    by (simp add: entry_of_def comp_def)
  have i: "fst ` set (map entry_of ?rs) = req_icon ` set reqs"
    using kept_icons [of reqs] by (simp add: image_image entry_of_def)
  have n: "?rs \<noteq> []" if "reqs \<noteq> []"
    using kept_icons [of reqs] that by auto
  have 1: "distinct (map fst (file_entries (add_all fs0 filePath reqs) filePath))"
    unfolding e f by (rule d)
  have 2: "fst ` set (file_entries (add_all fs0 filePath reqs) filePath) = req_icon ` set reqs"
    unfolding e by (rule i)
  have 3: "reqs \<noteq> [] \<longrightarrow>
      nodes (add_all fs0 filePath reqs) filePath = Some (File (render (kept reqs)))"
    using n h(1) by (simp add: holds_def)
  show ?thesis
    using 1 2 e 3 by blast
qed

text \<open>
  The theorem at three requests, the third repeating the first: the file holds two
  blocks.
\<close>

theorem managed_file_unique_ids_witness:
  \<open>nodes empty_fs ''icons.ts'' = None
   \<and> can_write empty_fs ''icons.ts''
   \<and> list_all well_formed
        [\<lparr>req_icon = ''lucide:home'', req_svg = ''<svg/>'', req_framework = Svg, req_name = None\<rparr>,
         \<lparr>req_icon = ''mdi:home'', req_svg = ''<svg/>'', req_framework = Svg,
          req_name = Some ''MdiHome''\<rparr>,
         \<lparr>req_icon = ''lucide:home'', req_svg = ''<svg/>'', req_framework = Svg, req_name = None\<rparr>]
   \<and> file_entries (add_all empty_fs ''icons.ts''
        [\<lparr>req_icon = ''lucide:home'', req_svg = ''<svg/>'', req_framework = Svg, req_name = None\<rparr>,
         \<lparr>req_icon = ''mdi:home'', req_svg = ''<svg/>'', req_framework = Svg,
          req_name = Some ''MdiHome''\<rparr>,
         \<lparr>req_icon = ''lucide:home'', req_svg = ''<svg/>'', req_framework = Svg, req_name = None\<rparr>])
        ''icons.ts''
       = [(''lucide:home'', ''HomeIcon''), (''mdi:home'', ''MdiHome'')]
   \<and> distinct (map fst (file_entries (add_all empty_fs ''icons.ts''
        [\<lparr>req_icon = ''lucide:home'', req_svg = ''<svg/>'', req_framework = Svg, req_name = None\<rparr>,
         \<lparr>req_icon = ''mdi:home'', req_svg = ''<svg/>'', req_framework = Svg,
          req_name = Some ''MdiHome''\<rparr>,
         \<lparr>req_icon = ''lucide:home'', req_svg = ''<svg/>'', req_framework = Svg, req_name = None\<rparr>])
        ''icons.ts''))\<close>
proof -
  let ?reqs = \<open>[\<lparr>req_icon = ''lucide:home'', req_svg = ''<svg/>'', req_framework = Svg, req_name = None\<rparr>,
         \<lparr>req_icon = ''mdi:home'', req_svg = ''<svg/>'', req_framework = Svg,
          req_name = Some ''MdiHome''\<rparr>,
         \<lparr>req_icon = ''lucide:home'', req_svg = ''<svg/>'', req_framework = Svg, req_name = None\<rparr>]\<close>
  have 1: "nodes empty_fs ''icons.ts'' = None" by (simp add: empty_fs_def)
  have 2: "can_write empty_fs ''icons.ts''" by (simp add: can_write_def empty_fs_def)
  have 3: "list_all well_formed ?reqs" by code_simp
  have k: "map entry_of (kept ?reqs) = [(''lucide:home'', ''HomeIcon''), (''mdi:home'', ''MdiHome'')]"
    by code_simp
  note t = managed_file_unique_ids [OF 1 2 3]
  have 4: "file_entries (add_all empty_fs ''icons.ts'' ?reqs) ''icons.ts''
       = [(''lucide:home'', ''HomeIcon''), (''mdi:home'', ''MdiHome'')]"
    using t k by simp
  have 5: "distinct (map fst (file_entries (add_all empty_fs ''icons.ts'' ?reqs) ''icons.ts''))"
    using t by blast
  show ?thesis using 1 2 3 4 5 by blast
qed

end
